theory Spec2Isabelle
  imports Main "HOL-Library.AList" "HOL-Library.Char_ord" "HOL-Library.List_Lexorder"
    "HOL-Library.Sublist"
begin

section \<open>Data model\<close>

text \<open>
  Errors thrown by the task collection and the task selector. Each constructor stands
  for one \<open>throw\<close> of the source. \<open>OutOfFuel\<close> and \<open>DanglingReference\<close> belong to the
  model only: the depth of a recursion is bounded by a number, and tasks and projects
  are referred to by name, where the source holds a reference to the object itself.
  Neither is ever returned for a collection or a configuration whose names resolve, as
  the theorems on \<open>getOrderedTasks\<close> and \<open>registerTasks\<close> show.
\<close>

datatype error =
    TaskAlreadyRegistered
  | TaskNotRegistered string
  | DependenciesUndefined
  | ProjectNotRegistered string
  | CyclicDependency "string list"
  | MissingScript string string
  | OutOfFuel
  | DanglingReference string

text \<open>
  Modelled from the spec: the declaration of \<open>TaskStatus\<close> is not among the sources. The
  states are those of the spec's state machine; the sources name \<open>Ready\<close>, \<open>Success\<close>,
  \<open>SuccessWithWarning\<close>, \<open>Skipped\<close>, \<open>FromCache\<close> and \<open>Failure\<close>.
\<close>

datatype TaskStatus =
  Ready | Executing | Success | SuccessWithWarning | Skipped | FromCache | Failure | Blocked

text \<open>A project of the configuration; other projects are referred to by package name.\<close>

record RushConfigurationProject =
  packageName :: string
  localDependencyProjects :: "string list"
  scripts :: "(string \<rightharpoonup> string) option"

datatype BuildCacheConfiguration = BuildCacheConfiguration

datatype ProjectBuildCache = ProjectBuildCache

record ProjectBuilder =
  rushProject :: RushConfigurationProject
  buildCacheConfiguration :: "BuildCacheConfiguration option"
  commandToRun :: string
  isIncrementalBuildAllowed :: bool
  packageDepsFilename :: string
  hadEmptyScript :: bool
  projectBuildCache :: "ProjectBuildCache option"

definition getTaskName :: "RushConfigurationProject \<Rightarrow> string" where
  "getTaskName p = packageName p"

definition ProjectBuilder_name :: "ProjectBuilder \<Rightarrow> string" where
  "ProjectBuilder_name b = getTaskName (rushProject b)"

text \<open>
  A task, with the fields the sources use (the class itself is not among them). The
  source links tasks by object reference (\<open>Set<Task>\<close>); the model names the referenced
  task, and keeps a set as the list of its members in insertion order.
\<close>

record Task =
  builder :: ProjectBuilder
  status :: TaskStatus
  dependencies :: "string list"
  dependents :: "string list"
  criticalPathLength :: "nat option"

definition Task_name :: "Task \<Rightarrow> string" where
  "Task_name t = ProjectBuilder_name (builder t)"

definition newTask :: "ProjectBuilder \<Rightarrow> TaskStatus \<Rightarrow> Task" where
  "newTask b s =
     \<lparr>builder = b, status = s, dependencies = [], dependents = [], criticalPathLength = None\<rparr>"

text \<open>\<open>Set.add\<close>: a member already present keeps its place.\<close>

definition setAdd :: "'a \<Rightarrow> 'a list \<Rightarrow> 'a list" where
  "setAdd x xs = (if x \<in> set xs then xs else xs @ [x])"

section \<open>TaskCollection\<close>

text \<open>The \<open>Map<string, Task>\<close> of the collection, in insertion order.\<close>

type_synonym TaskCollection = "(string \<times> Task) list"

definition hasTask :: "TaskCollection \<Rightarrow> string \<Rightarrow> bool" where
  "hasTask tc taskName = (map_of tc taskName \<noteq> None)"

text \<open>Mutation of the task object stored under a name.\<close>

fun updateTask :: "string \<Rightarrow> (Task \<Rightarrow> Task) \<Rightarrow> TaskCollection \<Rightarrow> TaskCollection" where
  "updateTask n f [] = []"
| "updateTask n f ((k, t) # tc) =
     (if k = n then (k, f t) # tc else (k, t) # updateTask n f tc)"

definition addTask :: "ProjectBuilder \<Rightarrow> TaskCollection \<Rightarrow> error option \<times> TaskCollection" where
  "addTask b tc =
     (if hasTask tc (ProjectBuilder_name b) then (Some TaskAlreadyRegistered, tc)
      else (let task = (newTask b Ready)\<lparr>criticalPathLength := None\<rparr>
            in (None, tc @ [(Task_name task, task)])))"

text \<open>
  The loop of \<open>addDependencies\<close>: each name is checked and linked in turn, so a
  \<open>throw\<close> leaves the links of the names before it in place.
\<close>

fun linkDependencies :: "string \<Rightarrow> string list \<Rightarrow> TaskCollection \<Rightarrow> error option \<times> TaskCollection" where
  "linkDependencies taskName [] tc = (None, tc)"
| "linkDependencies taskName (dependencyName # rest) tc =
     (if \<not> hasTask tc dependencyName then (Some (ProjectNotRegistered dependencyName), tc)
      else linkDependencies taskName rest
             (updateTask dependencyName (\<lambda>d. d\<lparr>dependents := setAdd taskName (dependents d)\<rparr>)
               (updateTask taskName (\<lambda>t. t\<lparr>dependencies := setAdd dependencyName (dependencies t)\<rparr>) tc)))"

definition addDependencies ::
  "string \<Rightarrow> string list option \<Rightarrow> TaskCollection \<Rightarrow> error option \<times> TaskCollection" where
  "addDependencies taskName taskDependencies tc =
     (case map_of tc taskName of
        None \<Rightarrow> (Some (TaskNotRegistered taskName), tc)
      | Some task \<Rightarrow>
          (case taskDependencies of
             None \<Rightarrow> (Some DependenciesUndefined, tc)
           | Some deps \<Rightarrow> linkDependencies taskName deps tc))"

text \<open>
  \<open>_checkForCyclicDependencies\<close>: depth-first traversal of the dependents, with the
  chain of names on the current path and the set of names already entered. The result
  is the set of entered names, which the source mutates in place. \<open>fuel\<close> bounds the
  depth of the recursion.
\<close>

fun checkForCyclicDependencies ::
  "nat \<Rightarrow> TaskCollection \<Rightarrow> string list \<Rightarrow> string list \<Rightarrow> string set \<Rightarrow> error + string set" where
  "checkForCyclicDependencies fuel tc [] dependencyChain alreadyCheckedProjects =
     Inr alreadyCheckedProjects"
| "checkForCyclicDependencies fuel tc (taskName # tasks) dependencyChain alreadyCheckedProjects =
     (if taskName \<in> set dependencyChain
      then Inl (CyclicDependency (rev (dependencyChain @ [taskName])))
      else if taskName \<in> alreadyCheckedProjects
      then checkForCyclicDependencies fuel tc tasks dependencyChain alreadyCheckedProjects
      else (case fuel of
              0 \<Rightarrow> Inl OutOfFuel
            | Suc fuel' \<Rightarrow>
               (case map_of tc taskName of
                  None \<Rightarrow> Inl (DanglingReference taskName)
                | Some task \<Rightarrow>
                   (case checkForCyclicDependencies fuel' tc (dependents task)
                           (dependencyChain @ [taskName]) (insert taskName alreadyCheckedProjects) of
                      Inl e \<Rightarrow> Inl e
                    | Inr checked \<Rightarrow>
                        checkForCyclicDependencies fuel tc tasks dependencyChain checked))))"

text \<open>The text of the error thrown for a cycle, from the reversed chain.\<close>

fun joinArrow :: "string list \<Rightarrow> string" where
  "joinArrow [] = []"
| "joinArrow [x] = x"
| "joinArrow (x # y # ys) = x @ [CHR 0x0A] @ ''  -> '' @ joinArrow (y # ys)"

definition cyclicDependencyMessage :: "string list \<Rightarrow> string" where
  "cyclicDependencyMessage reversedChain =
     ''A cyclic dependency was encountered:'' @ [CHR 0x0A] @ ''  '' @ joinArrow reversedChain
       @ [CHR 0x0A] @ ''Consider using the cyclicDependencyProjects option for rush.json.''"

text \<open>\<open>Math.max(...depsLengths)\<close> on the lengths collected from a non-empty set.\<close>

definition Math_max :: "nat list \<Rightarrow> nat" where
  "Math_max depsLengths = foldr max depsLengths 0"

text \<open>
  \<open>_calculateCriticalPaths\<close>, with the memoised lengths kept in the tasks, and the
  \<open>forEach\<close> over the dependents that collects \<open>depsLengths\<close>.
\<close>

fun calculateCriticalPaths ::
    "nat \<Rightarrow> string \<Rightarrow> TaskCollection \<Rightarrow> error + (nat \<times> TaskCollection)"
  and calculateDependents ::
    "nat \<Rightarrow> string list \<Rightarrow> TaskCollection \<Rightarrow> error + (nat list \<times> TaskCollection)" where
  "calculateCriticalPaths 0 taskName tc = Inl OutOfFuel"
| "calculateCriticalPaths (Suc fuel) taskName tc =
     (case map_of tc taskName of
        None \<Rightarrow> Inl (DanglingReference taskName)
      | Some task \<Rightarrow>
         (case criticalPathLength task of
            Some l \<Rightarrow> Inr (l, tc)
          | None \<Rightarrow>
             if dependents task = []
             then Inr (0, updateTask taskName (\<lambda>t. t\<lparr>criticalPathLength := Some 0\<rparr>) tc)
             else (case calculateDependents fuel (dependents task) tc of
                     Inl e \<Rightarrow> Inl e
                   | Inr (depsLengths, tc') \<Rightarrow>
                       Inr (Math_max depsLengths + 1,
                            updateTask taskName
                              (\<lambda>t. t\<lparr>criticalPathLength := Some (Math_max depsLengths + 1)\<rparr>) tc'))))"
| "calculateDependents fuel [] tc = Inr ([], tc)"
| "calculateDependents fuel (dep # rest) tc =
     (case calculateCriticalPaths fuel dep tc of
        Inl e \<Rightarrow> Inl e
      | Inr (l, tc') \<Rightarrow>
         (case calculateDependents fuel rest tc' of
            Inl e \<Rightarrow> Inl e
          | Inr (ls, tc'') \<Rightarrow> Inr (l # ls, tc'')))"

text \<open>\<open>this._tasks.forEach((task) => this._calculateCriticalPaths(task))\<close>\<close>

fun calculateAll :: "nat \<Rightarrow> string list \<Rightarrow> TaskCollection \<Rightarrow> error + TaskCollection" where
  "calculateAll fuel [] tc = Inr tc"
| "calculateAll fuel (taskName # rest) tc =
     (case calculateCriticalPaths fuel taskName tc of
        Inl e \<Rightarrow> Inl e
      | Inr (l, tc') \<Rightarrow> calculateAll fuel rest tc')"

text \<open>
  Modelled from the spec: \<open>Sort.sortBy\<close> of the node-core-library package, which is not
  among the sources. The spec has the tasks "sorted by descending critical-path length";
  the only key the caller hands over is the negated length, so the model sorts by that
  key alone, ascending, and keeps the order of elements with equal keys.
\<close>

definition sortBy :: "('a \<Rightarrow> int) \<Rightarrow> 'a list \<Rightarrow> 'a list" where
  "sortBy keySelector array = sort_key keySelector array"

text \<open>
  The key \<open>-task.criticalPathLength!\<close>. Every length is defined when the key is read;
  the undefined case is written out as 0 and never reached.
\<close>

definition negatedLength :: "Task \<Rightarrow> int" where
  "negatedLength task = (case criticalPathLength task of Some l \<Rightarrow> - int l | None \<Rightarrow> 0)"

definition getOrderedTasks :: "TaskCollection \<Rightarrow> error + Task list" where
  "getOrderedTasks tc =
     (case checkForCyclicDependencies (length tc) tc (map fst tc) [] {} of
        Inl e \<Rightarrow> Inl e
      | Inr checked \<Rightarrow>
         (case calculateAll (length tc) (map fst tc) tc of
            Inl e \<Rightarrow> Inl e
          | Inr tc' \<Rightarrow> Inr (sortBy negatedLength (map snd tc'))))"

section \<open>ProjectBuilder\<close>

text \<open>
  The incremental state of a project: the own properties of the \<open>files\<close> object, in
  insertion order, and the command string.
\<close>

type_synonym JsonObject = "(string \<times> string) list"

record IProjectBuildDeps =
  files :: JsonObject
  arguments :: string

text \<open>
  A \<open>files\<close> object is a plain object, whether it was built from \<open>{}\<close> or loaded from the
  state file, so it inherits the members of \<open>Object.prototype\<close>. These are their names in
  Node.js. The operator \<open>in\<close> and a property read see them; a \<open>for ... in\<close> loop does not,
  since they are not enumerable.
\<close>

definition objectPrototypeMembers :: "string list" where
  "objectPrototypeMembers =
     [''constructor'', ''__defineGetter__'', ''__defineSetter__'', ''hasOwnProperty'',
      ''__lookupGetter__'', ''__lookupSetter__'', ''isPrototypeOf'', ''propertyIsEnumerable'',
      ''toString'', ''valueOf'', ''__proto__'', ''toLocaleString'']"

text \<open>
  What \<open>object[n]\<close> reads: the object's own string, the member of that name inherited from
  the prototype (which is never a string), or \<open>undefined\<close>.
\<close>

datatype PropertyValue = OwnValue string | InheritedValue string | UndefinedValue

text \<open>\<open>n in object\<close>.\<close>

definition hasProperty :: "string \<Rightarrow> JsonObject \<Rightarrow> bool" where
  "hasProperty n object \<longleftrightarrow> map_of object n \<noteq> None \<or> n \<in> set objectPrototypeMembers"

text \<open>\<open>object[n]\<close>.\<close>

definition getProperty :: "JsonObject \<Rightarrow> string \<Rightarrow> PropertyValue" where
  "getProperty object n =
     (case map_of object n of
        Some v \<Rightarrow> OwnValue v
      | None \<Rightarrow> if n \<in> set objectPrototypeMembers then InheritedValue n else UndefinedValue)"

text \<open>
  \<open>object[n] = v\<close> on an object built from \<open>{}\<close>, for a string \<open>v\<close>: the setter of
  \<open>__proto__\<close> ignores a string, every other name becomes an own property.
\<close>

definition setProperty :: "string \<Rightarrow> string \<Rightarrow> JsonObject \<Rightarrow> JsonObject" where
  "setProperty n v object = (if n = ''__proto__'' then object else AList.update n v object)"

text \<open>
  \<open>_areShallowEqual\<close>: the first loop runs over the own keys of \<open>object1\<close> and fails on one
  that is not \<open>in object2\<close> or reads a different value there; the second runs over the own
  keys of \<open>object2\<close> and fails on one that is not \<open>in object1\<close>.
\<close>

definition areShallowEqual :: "JsonObject \<Rightarrow> JsonObject \<Rightarrow> bool" where
  "areShallowEqual object1 object2 =
     (list_all (\<lambda>n. hasProperty n object2 \<and> getProperty object1 n = getProperty object2 n)
        (map fst object1) \<and>
      list_all (\<lambda>n. hasProperty n object1) (map fst object2))"

datatype TerminalChunkKind = Stdout | Stderr

text \<open>
  What the collaborators of one execution answer: the file system, the change analyzer,
  the project configuration, the build cache, the child process and the terminal. The
  builder reads them in the order of the source; none of them is part of the sources.
  \<^item> \<open>depsFileExists\<close>, \<open>depsFileContent\<close>: \<open>FileSystem.exists\<close> and \<open>JsonFile.load\<close>
    of the state file; no content stands for a load that throws.
  \<^item> \<open>packageDeps\<close>: the entries of the map \<open>getPackageDeps\<close> returns, in its order; none
    when the change analyzer throws.
  \<^item> \<open>projectConfigurationLoads\<close>: \<open>tryLoadForProjectAsync\<close> returns a configuration.
  \<^item> \<open>cacheEligible\<close>: the project passes the validation of the build cache.
  \<^item> \<open>restoreFromCacheResult\<close>, \<open>setCacheEntryResult\<close>: the answers of
    \<open>tryRestoreFromCacheAsync\<close> and \<open>trySetCacheEntryAsync\<close>.
  \<^item> \<open>chunks\<close>, \<open>exitCode\<close>: the data events of the child's stdout and stderr in the
    order of arrival, and the code of its \<open>close\<close> event.
  \<^item> \<open>terminalHasErrors\<close>, \<open>terminalHasWarnings\<close>: the flags of the terminal provider
    when they are read, after the state file and the cache entry were written.
  \<^item> \<open>projectLogWritableIsOpen\<close>: the flag of the log file after the pipeline was closed.

  Deleting and saving a file is taken to succeed, and the lines the builder itself writes
  to the terminal are left out.
\<close>

record Environment =
  depsFileExists :: bool
  depsFileContent :: "IProjectBuildDeps option"
  packageDeps :: "(string \<times> string) list option"
  projectConfigurationLoads :: bool
  cacheEligible :: bool
  restoreFromCacheResult :: bool
  chunks :: "(TerminalChunkKind \<times> string) list"
  exitCode :: int
  setCacheEntryResult :: bool
  terminalHasErrors :: bool
  terminalHasWarnings :: bool
  projectLogWritableIsOpen :: bool

text \<open>What an execution does to the file system, the child process, the cache and the output.\<close>

datatype DepsPath = CurrentDepsPath | LegacyDepsPath

datatype Effect =
    DeleteFile DepsPath
  | SaveJsonFile IProjectBuildDeps DepsPath
  | ExecuteLifecycleCommand string
  | WriteChunk TerminalChunkKind string
  | TryRestoreFromCache
  | TrySetCacheEntry

datatype ErrorMessage = ReturnedErrorCode int | OutputFileHandleNotClosed

datatype BuilderError = TaskError string ErrorMessage | InternalError ErrorMessage

fun errorMessage :: "BuilderError \<Rightarrow> ErrorMessage" where
  "errorMessage (TaskError kind m) = m"
| "errorMessage (InternalError m) = m"

record Execution =
  outcome :: "BuilderError + TaskStatus"
  effects :: "Effect list"
  builderAfter :: ProjectBuilder

text \<open>
  Modelled from the spec: \<open>ProjectBuildCache.tryGetProjectBuildCache\<close> is not among the
  sources. By the spec, a task whose file hashes are unavailable is flagged "uncacheable",
  so no cache is handed out when the tracked files are undefined; a cache is handed out
  to a cache-eligible project otherwise.
\<close>

definition tryGetProjectBuildCache :: "Environment \<Rightarrow> string list option \<Rightarrow> ProjectBuildCache option" where
  "tryGetProjectBuildCache env trackedProjectFiles =
     (case trackedProjectFiles of
        None \<Rightarrow> None
      | Some fs \<Rightarrow> if cacheEligible env then Some ProjectBuildCache else None)"

text \<open>\<open>_getProjectBuildCacheAsync\<close>: the builder with its cache looked up once and kept.\<close>

definition getProjectBuildCacheAsync ::
  "ProjectBuilder \<Rightarrow> Environment \<Rightarrow> string list option \<Rightarrow> ProjectBuilder" where
  "getProjectBuildCacheAsync b env trackedProjectFiles =
     (if projectBuildCache b = None
      then (if buildCacheConfiguration b \<noteq> None
            then (if projectConfigurationLoads env
                  then b\<lparr>projectBuildCache := tryGetProjectBuildCache env trackedProjectFiles\<rparr>
                  else b)
            else b)
      else b)"

text \<open>The local variables of \<open>_executeTaskAsync\<close> before the command is run.\<close>

definition lastProjectBuildDeps :: "Environment \<Rightarrow> IProjectBuildDeps option" where
  "lastProjectBuildDeps env = (if depsFileExists env then depsFileContent env else None)"

text \<open>
  The \<open>files\<close> object of the current state:
  \<open>for (const [filePath, fileHash] of fileHashes) files[filePath] = fileHash\<close>.
\<close>

definition filesOf :: "(string \<times> string) list \<Rightarrow> JsonObject" where
  "filesOf fileHashes =
     fold (\<lambda>(filePath, fileHash) files. setProperty filePath fileHash files) fileHashes []"

definition trackedFiles :: "Environment \<Rightarrow> string list option" where
  "trackedFiles env = map_option (map fst) (packageDeps env)"

definition projectBuildDeps :: "ProjectBuilder \<Rightarrow> Environment \<Rightarrow> IProjectBuildDeps option" where
  "projectBuildDeps b env =
     map_option (\<lambda>fileHashes. \<lparr>files = filesOf fileHashes, arguments = commandToRun b\<rparr>)
       (packageDeps env)"

definition isPackageUnchanged :: "ProjectBuilder \<Rightarrow> Environment \<Rightarrow> bool" where
  "isPackageUnchanged b env =
     (case lastProjectBuildDeps env of
        None \<Rightarrow> False
      | Some previous \<Rightarrow>
         (case projectBuildDeps b env of
            None \<Rightarrow> False
          | Some current \<Rightarrow>
              arguments current = arguments previous \<and>
              areShallowEqual (files current) (files previous)))"

definition restoreFromCacheSuccess :: "ProjectBuilder \<Rightarrow> Environment \<Rightarrow> bool option" where
  "restoreFromCacheSuccess b env =
     map_option (\<lambda>cache. restoreFromCacheResult env)
       (projectBuildCache (getProjectBuildCacheAsync b env (trackedFiles env)))"

text \<open>\<open>tryWriteCacheEntryAsync\<close>: the answer of the cache, if there is one, and the builder.\<close>

definition tryWriteCacheEntryAsync ::
  "ProjectBuilder \<Rightarrow> Environment \<Rightarrow> string list option \<Rightarrow> bool option \<times> ProjectBuilder" where
  "tryWriteCacheEntryAsync b env trackedFilePaths =
     (let b' = getProjectBuildCacheAsync b env trackedFilePaths
      in (map_option (\<lambda>cache. setCacheEntryResult env) (projectBuildCache b'), b'))"

text \<open>\<open>hasWarningOrError\<close>: a data event of stderr was seen.\<close>

definition hasWarningOrError :: "Environment \<Rightarrow> bool" where
  "hasWarningOrError env = list_ex (\<lambda>(kind, chunk). kind = Stderr) (chunks env)"

text \<open>
  The end of \<open>_executeTaskAsync\<close>: the pipeline is closed, and the log file must be
  closed with it.
\<close>

definition closePipeline ::
  "ProjectBuilder \<Rightarrow> Environment \<Rightarrow> Effect list \<Rightarrow> TaskStatus \<Rightarrow> Execution" where
  "closePipeline b env finished taskStatus =
     (if projectLogWritableIsOpen env
      then \<lparr>outcome = Inl (InternalError OutputFileHandleNotClosed), effects = finished,
            builderAfter = b\<rparr>
      else \<lparr>outcome = Inr taskStatus, effects = finished, builderAfter = b\<rparr>)"

text \<open>
  The part of \<open>_executeTaskAsync\<close> from the start of the child process: the chunks are
  passed on, the exit code decides, then the state and the cache entry are written.
\<close>

definition runCommand :: "ProjectBuilder \<Rightarrow> Environment \<Rightarrow> Effect list \<Rightarrow> Execution" where
  "runCommand b env before =
     (let spawned = before @ [ExecuteLifecycleCommand (commandToRun b)]
                      @ map (\<lambda>(kind, chunk). WriteChunk kind chunk) (chunks env)
      in if exitCode env \<noteq> 0
         then \<lparr>outcome = Inl (TaskError ''error'' (ReturnedErrorCode (exitCode env))),
               effects = spawned, builderAfter = b\<rparr>
         else
           (let taskStatus = (if hasWarningOrError env then SuccessWithWarning else Success)
            in case (if taskStatus = Success then projectBuildDeps b env else None) of
                 None \<Rightarrow> closePipeline b env spawned taskStatus
               | Some deps \<Rightarrow>
                  (let (cacheWriteSuccess, b') = tryWriteCacheEntryAsync b env (trackedFiles env);
                       written = spawned @ [SaveJsonFile deps CurrentDepsPath]
                         @ (if projectBuildCache b' \<noteq> None then [TrySetCacheEntry] else [])
                   in closePipeline b' env written
                        (if terminalHasErrors env then Failure
                         else if cacheWriteSuccess = Some False \<or> terminalHasWarnings env
                         then SuccessWithWarning
                         else taskStatus))))"

definition executeTaskAsync :: "ProjectBuilder \<Rightarrow> Environment \<Rightarrow> Execution" where
  "executeTaskAsync b env =
     (let b' = getProjectBuildCacheAsync b env (trackedFiles env);
          attempted = (if projectBuildCache b' \<noteq> None then [TryRestoreFromCache] else [])
      in if restoreFromCacheSuccess b env = Some True
         then \<lparr>outcome = Inr FromCache, effects = attempted, builderAfter = b'\<rparr>
         else if isPackageUnchanged b env \<and> isIncrementalBuildAllowed b
         then \<lparr>outcome = Inr Skipped, effects = attempted, builderAfter = b'\<rparr>
         else
           (let deleted = attempted @ [DeleteFile CurrentDepsPath, DeleteFile LegacyDepsPath]
            in if commandToRun b = []
               then \<lparr>outcome = Inr Success,
                     effects = deleted @
                       (case projectBuildDeps b env of
                          Some deps \<Rightarrow> [SaveJsonFile deps CurrentDepsPath]
                        | None \<Rightarrow> []),
                     builderAfter = b'\<rparr>
               else runCommand b' env deleted))"

text \<open>\<open>executeAsync\<close>: whatever is thrown is thrown again as a \<open>TaskError\<close>.\<close>

definition executeAsync :: "ProjectBuilder \<Rightarrow> Environment \<Rightarrow> Execution" where
  "executeAsync b env =
     (let b' = (if commandToRun b = [] then b\<lparr>hadEmptyScript := True\<rparr> else b);
          r = executeTaskAsync b' env
      in case outcome r of
           Inl e \<Rightarrow> r\<lparr>outcome := Inl (TaskError ''executing'' (errorMessage e))\<rparr>
         | Inr s \<Rightarrow> r)"

section \<open>TaskSelector\<close>

text \<open>
  The configuration holds the projects; a project refers to the projects it depends on by
  package name, and so do the \<open>to\<close> and \<open>from\<close> lists of the selector.
\<close>

record RushConfiguration =
  projects :: "RushConfigurationProject list"

definition projectNamed :: "RushConfiguration \<Rightarrow> string \<Rightarrow> RushConfigurationProject option" where
  "projectNamed cfg n = find (\<lambda>p. packageName p = n) (projects cfg)"

text \<open>
  The options of the selector. The three fields that share a name with a field of the
  builder carry the suffix \<open>_option\<close>; \<open>platformIsWin32\<close> stands for
  \<open>process.platform === 'win32'\<close>.
\<close>

record ITaskSelectorConstructor =
  rushConfiguration :: RushConfiguration
  toProjects :: "string list"
  fromProjects :: "string list"
  commandToRun_option :: string
  customParameterValues :: "string list"
  isQuietMode :: bool
  isIncrementalBuildAllowed_option :: bool
  ignoreMissingScript :: bool
  ignoreDependencyOrder :: bool
  packageDepsFilename_option :: string
  platformIsWin32 :: bool

text \<open>
  \<open>convertSlashesForWindows\<close>, on strings of 8-bit code units: the command part is the
  longest prefix without white space, \<open>&\<close>, \<open>|\<close>, \<open><\<close>, \<open>>\<close> or a double quote; the
  expression matches when that prefix is not empty and no line terminator follows it.
\<close>

definition isCommandChar :: "char \<Rightarrow> bool" where
  "isCommandChar c \<longleftrightarrow>
     c \<notin> {CHR 0x09, CHR 0x0A, CHR 0x0B, CHR 0x0C, CHR 0x0D, CHR 0x20, CHR 0xA0,
          CHR ''&'', CHR ''|'', CHR ''<'', CHR ''>'', CHR 0x22}"

definition convertSlashesForWindows :: "string \<Rightarrow> string" where
  "convertSlashesForWindows command =
     (let commandPart = takeWhile isCommandChar command;
          remainder = dropWhile isCommandChar command
      in if commandPart \<noteq> [] \<and> CHR 0x0A \<notin> set remainder \<and> CHR 0x0D \<notin> set remainder \<and>
            CHR 0x5C \<notin> set commandPart
         then map (\<lambda>c. if c = CHR ''/'' then CHR 0x5C else c) commandPart @ remainder
         else command)"

text \<open>\<open>Array.prototype.join(' ')\<close>\<close>

fun joinSpace :: "string list \<Rightarrow> string" where
  "joinSpace [] = []"
| "joinSpace [x] = x"
| "joinSpace (x # y # ys) = x @ '' '' @ joinSpace (y # ys)"

definition getScriptCommand :: "RushConfigurationProject \<Rightarrow> string \<Rightarrow> string option" where
  "getScriptCommand project script =
     (case scripts project of None \<Rightarrow> None | Some table \<Rightarrow> table script)"

definition getScriptToRun :: "ITaskSelectorConstructor \<Rightarrow> RushConfigurationProject \<Rightarrow> error + string" where
  "getScriptToRun options project =
     (let script = getScriptCommand project (commandToRun_option options)
      in if script = None \<and> \<not> ignoreMissingScript options
         then Inl (MissingScript (packageName project) (commandToRun_option options))
         else (case script of
                 None \<Rightarrow> Inr []
               | Some command \<Rightarrow>
                  if command = [] then Inr []
                  else (let taskCommand = command @ '' '' @ joinSpace (customParameterValues options)
                        in Inr (if platformIsWin32 options
                                then convertSlashesForWindows taskCommand else taskCommand))))"

text \<open>The builder the selector constructs; it is given no build cache configuration.\<close>

definition newProjectBuilder :: "ITaskSelectorConstructor \<Rightarrow> RushConfigurationProject \<Rightarrow> string \<Rightarrow> ProjectBuilder" where
  "newProjectBuilder options project command =
     \<lparr>rushProject = project, buildCacheConfiguration = None, commandToRun = command,
      isIncrementalBuildAllowed = isIncrementalBuildAllowed_option options,
      packageDepsFilename = packageDepsFilename_option options,
      hadEmptyScript = False, projectBuildCache = None\<rparr>"

text \<open>
  \<open>_registerTask\<close>. The selector's methods thread the task collection; a \<open>throw\<close>
  ends \<open>registerTasks\<close>, so the collection is returned only when nothing is thrown.
\<close>

definition registerTask ::
  "ITaskSelectorConstructor \<Rightarrow> RushConfigurationProject option \<Rightarrow> TaskCollection \<Rightarrow> error + TaskCollection" where
  "registerTask options project tc =
     (case project of
        None \<Rightarrow> Inr tc
      | Some p \<Rightarrow>
         if hasTask tc (getTaskName p) then Inr tc
         else (case getScriptToRun options p of
                 Inl e \<Rightarrow> Inl e
               | Inr command \<Rightarrow>
                  (case addTask (newProjectBuilder options p command) tc of
                     (Some e, tc') \<Rightarrow> Inl e
                   | (None, tc') \<Rightarrow> Inr tc')))"

text \<open>\<open>for (const project of ...) this._registerTask(project)\<close>, over the referenced projects.\<close>

fun registerEach ::
  "ITaskSelectorConstructor \<Rightarrow> string list \<Rightarrow> TaskCollection \<Rightarrow> error + TaskCollection" where
  "registerEach options [] tc = Inr tc"
| "registerEach options (n # ns) tc =
     (case registerTask options (projectNamed (rushConfiguration options) n) tc of
        Inl e \<Rightarrow> Inl e
      | Inr tc' \<Rightarrow> registerEach options ns tc')"

text \<open>
  The loops that add the ordering relationships: each selected project gets the task
  names of its local dependencies that satisfy \<open>keep\<close> (all of them for \<open>to\<close> and for the
  whole configuration, the selected ones for \<open>from\<close>). The task name of a project is its
  package name, the name by which the project is referred to.
\<close>

fun addOrdering ::
  "ITaskSelectorConstructor \<Rightarrow> (string \<Rightarrow> bool) \<Rightarrow> string list \<Rightarrow> TaskCollection \<Rightarrow> error + TaskCollection" where
  "addOrdering options keep [] tc = Inr tc"
| "addOrdering options keep (n # ns) tc =
     (case projectNamed (rushConfiguration options) n of
        None \<Rightarrow> Inl (DanglingReference n)
      | Some p \<Rightarrow>
         (case addDependencies (getTaskName p)
                 (Some (filter keep (localDependencyProjects p))) tc of
            (Some e, tc') \<Rightarrow> Inl e
          | (None, tc') \<Rightarrow> addOrdering options keep ns tc'))"

text \<open>
  \<open>_collectAllDependencies\<close> with the loop over the local dependencies; the result is
  the list of the keys of the map, in insertion order (the value under a key is the
  project of that name). \<open>fuel\<close> bounds the depth of the recursion.
\<close>

fun collectAllDependencies ::
    "nat \<Rightarrow> RushConfiguration \<Rightarrow> string \<Rightarrow> string list \<Rightarrow> error + string list"
  and collectEachDependency ::
    "nat \<Rightarrow> RushConfiguration \<Rightarrow> string list \<Rightarrow> string list \<Rightarrow> error + string list" where
  "collectAllDependencies fuel cfg project result =
     (if project \<in> set result then Inr result
      else (case fuel of
              0 \<Rightarrow> Inl OutOfFuel
            | Suc fuel' \<Rightarrow>
               (case projectNamed cfg project of
                  None \<Rightarrow> Inl (DanglingReference project)
                | Some p \<Rightarrow>
                    collectEachDependency fuel' cfg (localDependencyProjects p)
                      (result @ [project]))))"
| "collectEachDependency fuel cfg [] result = Inr result"
| "collectEachDependency fuel cfg (dependencyProject # rest) result =
     (case collectAllDependencies fuel cfg dependencyProject result of
        Inl e \<Rightarrow> Inl e
      | Inr result' \<Rightarrow> collectEachDependency fuel cfg rest result')"

text \<open>
  \<open>_getDependentGraph\<close>: for every project and every local dependency of it, the project
  is added to the set kept under the name of the dependency.
\<close>

definition addDependent :: "string \<Rightarrow> string \<Rightarrow> (string \<times> string list) list \<Rightarrow> (string \<times> string list) list" where
  "addDependent dependencyName project dependentList =
     (case map_of dependentList dependencyName of
        None \<Rightarrow> dependentList @ [(dependencyName, [project])]
      | Some members \<Rightarrow> AList.update dependencyName (setAdd project members) dependentList)"

definition getDependentGraph :: "RushConfiguration \<Rightarrow> (string \<times> string list) list" where
  "getDependentGraph cfg =
     fold (\<lambda>project dependentList.
             fold (\<lambda>dependencyName. addDependent dependencyName (packageName project))
               (localDependencyProjects project) dependentList)
       (projects cfg) []"

text \<open>\<open>_collectAllDependents\<close>, over \<open>dependentList.get(project.packageName) || []\<close>.\<close>

fun collectAllDependents ::
    "nat \<Rightarrow> (string \<times> string list) list \<Rightarrow> string \<Rightarrow> string list \<Rightarrow> error + string list"
  and collectEachDependent ::
    "nat \<Rightarrow> (string \<times> string list) list \<Rightarrow> string list \<Rightarrow> string list \<Rightarrow> error + string list" where
  "collectAllDependents fuel dependentList project result =
     (if project \<in> set result then Inr result
      else (case fuel of
              0 \<Rightarrow> Inl OutOfFuel
            | Suc fuel' \<Rightarrow>
                collectEachDependent fuel' dependentList
                  (case map_of dependentList project of None \<Rightarrow> [] | Some members \<Rightarrow> members)
                  (result @ [project])))"
| "collectEachDependent fuel dependentList [] result = Inr result"
| "collectEachDependent fuel dependentList (dependent # rest) result =
     (case collectAllDependents fuel dependentList dependent result of
        Inl e \<Rightarrow> Inl e
      | Inr result' \<Rightarrow> collectEachDependent fuel dependentList rest result')"

definition registerToProjects ::
  "ITaskSelectorConstructor \<Rightarrow> string list \<Rightarrow> TaskCollection \<Rightarrow> error + TaskCollection" where
  "registerToProjects options selected tc =
     (case collectEachDependency (length (projects (rushConfiguration options)))
             (rushConfiguration options) selected [] of
        Inl e \<Rightarrow> Inl e
      | Inr collected \<Rightarrow>
         (case registerEach options collected tc of
            Inl e \<Rightarrow> Inl e
          | Inr tc' \<Rightarrow>
             if \<not> ignoreDependencyOrder options
             then addOrdering options (\<lambda>x. True) collected tc'
             else Inr tc'))"

definition registerFromProjects ::
  "ITaskSelectorConstructor \<Rightarrow> string list \<Rightarrow> TaskCollection \<Rightarrow> error + TaskCollection" where
  "registerFromProjects options selected tc =
     (case collectEachDependent (length (projects (rushConfiguration options)))
             (getDependentGraph (rushConfiguration options)) selected [] of
        Inl e \<Rightarrow> Inl e
      | Inr collected \<Rightarrow>
         (case registerEach options collected tc of
            Inl e \<Rightarrow> Inl e
          | Inr tc' \<Rightarrow>
             if \<not> ignoreDependencyOrder options
             then addOrdering options (\<lambda>x. x \<in> set collected) collected tc'
             else Inr tc'))"

definition registerAll :: "ITaskSelectorConstructor \<Rightarrow> TaskCollection \<Rightarrow> error + TaskCollection" where
  "registerAll options tc =
     (case registerEach options (map packageName (projects (rushConfiguration options))) tc of
        Inl e \<Rightarrow> Inl e
      | Inr tc' \<Rightarrow>
         if \<not> ignoreDependencyOrder options
         then addOrdering options (\<lambda>x. True)
                (map packageName (projects (rushConfiguration options))) tc'
         else Inr tc')"

text \<open>\<open>registerTasks\<close>, from the empty collection the constructor creates.\<close>

definition registerTasks :: "ITaskSelectorConstructor \<Rightarrow> error + TaskCollection" where
  "registerTasks options =
     (case (if toProjects options \<noteq> []
            then registerToProjects options (toProjects options) [] else Inr []) of
        Inl e \<Rightarrow> Inl e
      | Inr tc1 \<Rightarrow>
         (case (if fromProjects options \<noteq> []
                then registerFromProjects options (fromProjects options) tc1 else Inr tc1) of
            Inl e \<Rightarrow> Inl e
          | Inr tc2 \<Rightarrow>
             if toProjects options = [] \<and> fromProjects options = []
             then registerAll options tc2
             else Inr tc2))"

section \<open>Graph notions used in the statements\<close>

definition registered :: "TaskCollection \<Rightarrow> string set" where
  "registered tc = set (map fst tc)"

definition dependentsOf :: "TaskCollection \<Rightarrow> string \<Rightarrow> string list" where
  "dependentsOf tc n = (case map_of tc n of None \<Rightarrow> [] | Some t \<Rightarrow> dependents t)"

definition dependenciesOf :: "TaskCollection \<Rightarrow> string \<Rightarrow> string list" where
  "dependenciesOf tc n = (case map_of tc n of None \<Rightarrow> [] | Some t \<Rightarrow> dependencies t)"

definition lengthOf :: "TaskCollection \<Rightarrow> string \<Rightarrow> nat option" where
  "lengthOf tc n = (case map_of tc n of None \<Rightarrow> None | Some t \<Rightarrow> criticalPathLength t)"

text \<open>\<open>(a, b) \<in> dependsOn tc\<close>: task \<open>a\<close> depends on task \<open>b\<close>.\<close>

definition dependsOn :: "TaskCollection \<Rightarrow> (string \<times> string) set" where
  "dependsOn tc = {(a, b). b \<in> set (dependenciesOf tc a)}"

definition dependentEdges :: "TaskCollection \<Rightarrow> (string \<times> string) set" where
  "dependentEdges tc = {(a, b). b \<in> set (dependentsOf tc a)}"

definition cyclic :: "TaskCollection \<Rightarrow> bool" where
  "cyclic tc \<longleftrightarrow> (\<exists>a. (a, a) \<in> (dependsOn tc)\<^sup>+)"

text \<open>
  The state of a collection that \<open>addTask\<close> and \<open>addDependencies\<close> build: names are
  unique and are the tasks' own, no length is computed yet, and the dependents are the
  inverse of the dependencies, all of them registered.
\<close>

definition wellFormed :: "TaskCollection \<Rightarrow> bool" where
  "wellFormed tc \<longleftrightarrow>
     distinct (map fst tc) \<and>
     (\<forall>(k, t) \<in> set tc. Task_name t = k \<and> criticalPathLength t = None \<and>
        (\<forall>d \<in> set (dependencies t). k \<in> set (dependentsOf tc d)) \<and>
        (\<forall>d \<in> set (dependents t). k \<in> set (dependenciesOf tc d)))"

text \<open>A chain \<open>x -> y -> ...\<close> in which each task depends on the next one.\<close>

fun dependsOnPath :: "TaskCollection \<Rightarrow> string list \<Rightarrow> bool" where
  "dependsOnPath tc [] = True"
| "dependsOnPath tc [x] = True"
| "dependsOnPath tc (x # y # ys) = (y \<in> set (dependenciesOf tc x) \<and> dependsOnPath tc (y # ys))"

text \<open>The chain names a cycle: it leads from its first task back to that task.\<close>

definition namesCycle :: "TaskCollection \<Rightarrow> string list \<Rightarrow> bool" where
  "namesCycle tc c = (case c of [] \<Rightarrow> False | t # rest \<Rightarrow> t \<in> set rest \<and> dependsOnPath tc c)"

text \<open>
  The project graph of a configuration: \<open>(a, b) \<in> localDependencies cfg\<close> when the project
  named \<open>a\<close> has \<open>b\<close> among its local dependencies. In a well-formed configuration the
  package names are unique and every local dependency is a project of the configuration.
\<close>

definition projectNames :: "RushConfiguration \<Rightarrow> string set" where
  "projectNames cfg = set (map packageName (projects cfg))"

definition localDependencies :: "RushConfiguration \<Rightarrow> (string \<times> string) set" where
  "localDependencies cfg =
     {(a, b). \<exists>p \<in> set (projects cfg). packageName p = a \<and> b \<in> set (localDependencyProjects p)}"

definition wellFormedConfiguration :: "RushConfiguration \<Rightarrow> bool" where
  "wellFormedConfiguration cfg \<longleftrightarrow>
     distinct (map packageName (projects cfg)) \<and>
     (\<forall>p \<in> set (projects cfg). set (localDependencyProjects p) \<subseteq> projectNames cfg)"

section \<open>Notions used in the proofs\<close>

text \<open>A chain \<open>x, y, ...\<close> in which each task is a dependent of the one before.\<close>

fun dependentPath :: "TaskCollection \<Rightarrow> string list \<Rightarrow> bool" where
  "dependentPath tc [] = True"
| "dependentPath tc [x] = True"
| "dependentPath tc (x # y # ys) = (y \<in> set (dependentsOf tc x) \<and> dependentPath tc (y # ys))"

text \<open>Every dependent is a registered task.\<close>

definition closedCollection :: "TaskCollection \<Rightarrow> bool" where
  "closedCollection tc \<longleftrightarrow> (\<forall>a. set (dependentsOf tc a) \<subseteq> registered tc)"

definition acyclicDependents :: "TaskCollection \<Rightarrow> bool" where
  "acyclicDependents tc \<longleftrightarrow> (\<forall>a. (a, a) \<notin> (dependentEdges tc)\<^sup>+)"

text \<open>
  The invariant of the traversal: a name that was entered and has left the chain lies on
  no cycle, and all its dependents have been entered and have left the chain as well.
\<close>

definition settled :: "TaskCollection \<Rightarrow> string list \<Rightarrow> string set \<Rightarrow> bool" where
  "settled tc chain checked \<longleftrightarrow>
     (\<forall>x \<in> checked - set chain.
        (x, x) \<notin> (dependentEdges tc)\<^sup>+ \<and> set (dependentsOf tc x) \<subseteq> checked - set chain)"

text \<open>The collection with every computed length forgotten.\<close>

definition erase :: "TaskCollection \<Rightarrow> TaskCollection" where
  "erase tc = map (\<lambda>(k, t). (k, t\<lparr>criticalPathLength := None\<rparr>)) tc"

text \<open>
  The invariant of the memoised lengths: a stored length is the one the recursive
  definition gives from the stored lengths of the dependents.
\<close>

definition memoOK :: "TaskCollection \<Rightarrow> bool" where
  "memoOK tc \<longleftrightarrow>
     (\<forall>k l. lengthOf tc k = Some l \<longrightarrow>
        (\<exists>ls. list_all2 (\<lambda>d x. lengthOf tc d = Some x) (dependentsOf tc k) ls \<and>
              l = (if dependentsOf tc k = [] then 0 else Math_max ls + 1)))"

text \<open>Links are only ever added.\<close>

definition linksGrow :: "TaskCollection \<Rightarrow> TaskCollection \<Rightarrow> bool" where
  "linksGrow tc tc' \<longleftrightarrow>
     (\<forall>k t. map_of tc k = Some t \<longrightarrow>
        (\<exists>t'. map_of tc' k = Some t' \<and> set (dependencies t) \<subseteq> set (dependencies t')
              \<and> set (dependents t) \<subseteq> set (dependents t')))"

text \<open>
  The traversal that \<open>_collectAllDependencies\<close> and \<open>_collectAllDependents\<close> share, over
  any successor function, and the edges of such a function.
\<close>

fun visit :: "nat \<Rightarrow> (string \<Rightarrow> string list option) \<Rightarrow> string \<Rightarrow> string list \<Rightarrow> error + string list"
  and visitEach :: "nat \<Rightarrow> (string \<Rightarrow> string list option) \<Rightarrow> string list \<Rightarrow> string list \<Rightarrow> error + string list" where
  "visit fuel nexts n result =
     (if n \<in> set result then Inr result
      else (case fuel of
              0 \<Rightarrow> Inl OutOfFuel
            | Suc fuel' \<Rightarrow>
               (case nexts n of
                  None \<Rightarrow> Inl (DanglingReference n)
                | Some ns \<Rightarrow> visitEach fuel' nexts ns (result @ [n]))))"
| "visitEach fuel nexts [] result = Inr result"
| "visitEach fuel nexts (n # ns) result =
     (case visit fuel nexts n result of
        Inl e \<Rightarrow> Inl e
      | Inr result' \<Rightarrow> visitEach fuel nexts ns result')"

definition edgesOf :: "(string \<Rightarrow> string list option) \<Rightarrow> (string \<times> string) set" where
  "edgesOf nexts = {(a, b). \<exists>ns. nexts a = Some ns \<and> b \<in> set ns}"

text \<open>The set kept under a name in the dependent graph.\<close>

definition membersOf :: "(string \<times> string list) list \<Rightarrow> string \<Rightarrow> string list" where
  "membersOf dl n = (case map_of dl n of None \<Rightarrow> [] | Some members \<Rightarrow> members)"

section \<open>Example collections\<close>

definition exampleBuilder :: "string \<Rightarrow> ProjectBuilder" where
  "exampleBuilder n =
     \<lparr>rushProject = \<lparr>packageName = n, localDependencyProjects = [], scripts = None\<rparr>,
      buildCacheConfiguration = None, commandToRun = ''echo hi'',
      isIncrementalBuildAllowed = True, packageDepsFilename = ''package-deps_build.json'',
      hadEmptyScript = False, projectBuildCache = None\<rparr>"

text \<open>Two tasks that depend on each other, registered in the order \<open>a\<close>, \<open>b\<close>.\<close>

definition twoTaskCycle :: "ProjectBuilder \<Rightarrow> ProjectBuilder \<Rightarrow> TaskCollection" where
  "twoTaskCycle a b =
     snd (addDependencies (ProjectBuilder_name b) (Some [ProjectBuilder_name a])
       (snd (addDependencies (ProjectBuilder_name a) (Some [ProjectBuilder_name b])
         (snd (addTask b (snd (addTask a [])))))))"

text \<open>The chain in which \<open>b\<close> depends on \<open>a\<close> and \<open>c\<close> depends on \<open>b\<close>.\<close>

definition linearChain :: "ProjectBuilder \<Rightarrow> ProjectBuilder \<Rightarrow> ProjectBuilder \<Rightarrow> TaskCollection" where
  "linearChain a b c =
     snd (addDependencies (ProjectBuilder_name c) (Some [ProjectBuilder_name b])
       (snd (addDependencies (ProjectBuilder_name b) (Some [ProjectBuilder_name a])
         (snd (addTask c (snd (addTask b (snd (addTask a [])))))))))"

text \<open>Two independent tasks, \<open>b\<close> registered before \<open>a\<close>.\<close>

definition tiedTasks :: TaskCollection where
  "tiedTasks = snd (addTask (exampleBuilder ''a'') (snd (addTask (exampleBuilder ''b'') [])))"

text \<open>An environment in which nothing was built before and the command succeeds.\<close>

definition exampleEnvironment :: Environment where
  "exampleEnvironment =
     \<lparr>depsFileExists = False, depsFileContent = None,
      packageDeps = Some [(''src/index.ts'', ''0a1b'')],
      projectConfigurationLoads = False, cacheEligible = False, restoreFromCacheResult = False,
      chunks = [], exitCode = 0, setCacheEntryResult = True,
      terminalHasErrors = False, terminalHasWarnings = False, projectLogWritableIsOpen = False\<rparr>"

text \<open>The diamond: \<open>B\<close> and \<open>C\<close> depend on \<open>A\<close>, and \<open>D\<close> depends on \<open>B\<close> and \<open>C\<close>.\<close>

definition exampleProject :: "string \<Rightarrow> string list \<Rightarrow> RushConfigurationProject" where
  "exampleProject n deps =
     \<lparr>packageName = n, localDependencyProjects = deps,
      scripts = Some [''build'' \<mapsto> ''bin/tsc -p .'']\<rparr>"

definition diamond :: RushConfiguration where
  "diamond = \<lparr>projects = [exampleProject ''A'' [], exampleProject ''B'' [''A''],
                 exampleProject ''C'' [''A''], exampleProject ''D'' [''B'', ''C'']]\<rparr>"

definition exampleOptions :: "string list \<Rightarrow> string list \<Rightarrow> ITaskSelectorConstructor" where
  "exampleOptions to from =
     \<lparr>rushConfiguration = diamond, toProjects = to, fromProjects = from,
      commandToRun_option = ''build'', customParameterValues = [''--verbose''],
      isQuietMode = False, isIncrementalBuildAllowed_option = True,
      ignoreMissingScript = False, ignoreDependencyOrder = False,
      packageDepsFilename_option = ''package-deps_build.json'', platformIsWin32 = False\<rparr>"

section \<open>Proofs: task collection\<close>

lemma map_of_updateTask:
  "map_of (updateTask n f tc) k = (if k = n then map_option f (map_of tc k) else map_of tc k)"
  by (induction tc) auto

lemma hasTask_updateTask [simp]: "hasTask (updateTask n f tc) k = hasTask tc k"
  by (simp add: hasTask_def map_of_updateTask)

lemma set_setAdd [simp]: "set (setAdd x xs) = insert x (set xs)"
  by (auto simp: setAdd_def)

lemma linksGrow_refl: "linksGrow tc tc" by (auto simp: linksGrow_def)
lemma linksGrow_trans: "linksGrow a b \<Longrightarrow> linksGrow b c \<Longrightarrow> linksGrow a c"
  unfolding linksGrow_def by (meson subset_trans)

lemma linksGrow_link:
  "linksGrow tc (updateTask d (\<lambda>x. x\<lparr>dependents := setAdd n (dependents x)\<rparr>)
               (updateTask n (\<lambda>t. t\<lparr>dependencies := setAdd d (dependencies t)\<rparr>) tc))"
  by (auto simp: linksGrow_def map_of_updateTask)

lemma linkDependencies_grow:
  "linkDependencies n ds tc = (e, tc') \<Longrightarrow> linksGrow tc tc'"
proof (induction ds arbitrary: tc)
  case Nil
  then show ?case by (simp add: linksGrow_refl)
next
  case (Cons d ds)
  show ?case
  proof (cases "hasTask tc d")
    case False
    with Cons.prems show ?thesis by (simp add: linksGrow_refl)
  next
    case True
    with Cons.prems Cons.IH show ?thesis
      by (auto intro: linksGrow_trans [OF linksGrow_link])
  qed
qed

lemma linkDependencies_partial:
  assumes "hasTask tc n" "\<forall>p\<in>set pre. hasTask tc p" "\<not> hasTask tc d"
  shows "\<exists>tc'. linkDependencies n (pre @ d # post) tc = (Some (ProjectNotRegistered d), tc') \<and>
           (\<forall>p\<in>set pre. \<exists>t dep. map_of tc' n = Some t \<and> p \<in> set (dependencies t) \<and>
               map_of tc' p = Some dep \<and> n \<in> set (dependents dep))"
  using assms
proof (induction pre arbitrary: tc)
  case Nil
  then show ?case by simp
next
  case (Cons p pre)
  let ?tc1 = "updateTask p (\<lambda>x. x\<lparr>dependents := setAdd n (dependents x)\<rparr>)
               (updateTask n (\<lambda>t. t\<lparr>dependencies := setAdd p (dependencies t)\<rparr>) tc)"
  have h: "hasTask ?tc1 n" "\<forall>q\<in>set pre. hasTask ?tc1 q" "\<not> hasTask ?tc1 d"
    using Cons.prems by simp_all
  from Cons.IH [OF h] obtain tc' where
    run: "linkDependencies n (pre @ d # post) ?tc1 = (Some (ProjectNotRegistered d), tc')" and
    links: "\<forall>q\<in>set pre. \<exists>t dep. map_of tc' n = Some t \<and> q \<in> set (dependencies t) \<and>
               map_of tc' q = Some dep \<and> n \<in> set (dependents dep)"
    by blast
  have grow: "linksGrow ?tc1 tc'" using run by (rule linkDependencies_grow)
  obtain tn tp where tn: "map_of tc n = Some tn" and tp: "map_of tc p = Some tp"
    using Cons.prems by (auto simp: hasTask_def)
  have "\<exists>t1. map_of ?tc1 n = Some t1 \<and> p \<in> set (dependencies t1)"
    using tn tp by (auto simp: map_of_updateTask)
  moreover have "\<exists>d1. map_of ?tc1 p = Some d1 \<and> n \<in> set (dependents d1)"
    using tn tp by (auto simp: map_of_updateTask)
  ultimately have first: "\<exists>t dep. map_of tc' n = Some t \<and> p \<in> set (dependencies t) \<and>
               map_of tc' p = Some dep \<and> n \<in> set (dependents dep)"
    using grow unfolding linksGrow_def by (meson subsetD)
  have "linkDependencies n ((p # pre) @ d # post) tc = (Some (ProjectNotRegistered d), tc')"
    using run Cons.prems by simp
  with first links show ?case by auto
qed

lemma map_fst_updateTask [simp]: "map fst (updateTask n f tc) = map fst tc"
  by (induction tc) auto

lemma registered_dom: "registered tc = dom (map_of tc)"
  by (simp add: registered_def dom_map_of_conv_image_fst)

lemma dependentsOf_registered:
  "d \<in> set (dependentsOf tc a) \<Longrightarrow> a \<in> registered tc"
  by (cases "map_of tc a") (auto simp: dependentsOf_def registered_dom)

lemma dependentPath_snoc:
  "dependentPath tc (p @ [d]) \<longleftrightarrow> dependentPath tc p \<and> (p \<noteq> [] \<longrightarrow> d \<in> set (dependentsOf tc (last p)))"
  by (induction tc p rule: dependentPath.induct) auto

lemma dependentPath_reach:
  "dependentPath tc p \<Longrightarrow> x \<in> set p \<Longrightarrow> (x, last p) \<in> (dependentEdges tc)\<^sup>*"
proof (induction tc p arbitrary: x rule: dependentPath.induct)
  case (3 tc a b ys)
  have ab: "(a, b) \<in> dependentEdges tc" using "3.prems" by (simp add: dependentEdges_def)
  have path: "dependentPath tc (b # ys)" using "3.prems" by simp
  show ?case
  proof (cases "x = a")
    case True
    have "(b, last (b # ys)) \<in> (dependentEdges tc)\<^sup>*"
      using "3.IH" [OF path, of b] by simp
    with ab True show ?thesis by (simp add: converse_rtrancl_into_rtrancl)
  next
    case False
    then have "x \<in> set (b # ys)" using "3.prems" by simp
    from "3.IH" [OF path this] show ?thesis by simp
  qed
qed auto

lemma check_mono:
  "checkForCyclicDependencies fuel tc ts chain checked = Inr checked' \<Longrightarrow> checked \<subseteq> checked'"
proof (induction fuel tc ts chain checked arbitrary: checked' rule: checkForCyclicDependencies.induct)
  case (1 fuel tc chain checked)
  then show ?case by simp
next
  case (2 fuel tc t ts chain checked)
  show ?case
  proof (cases "t \<in> set chain")
    case True
    with "2.prems" show ?thesis by simp
  next
    case notin: False
    show ?thesis
    proof (cases "t \<in> checked")
      case True
      with notin "2.prems" "2.IH"(1) show ?thesis by simp
    next
      case False
      with notin "2.prems" obtain f task c1 where
        f: "fuel = Suc f" and task: "map_of tc t = Some task" and
        inner: "checkForCyclicDependencies f tc (dependents task) (chain @ [t]) (insert t checked) = Inr c1" and
        outer: "checkForCyclicDependencies fuel tc ts chain c1 = Inr checked'"
        by (auto split: nat.splits option.splits sum.splits)
      have "insert t checked \<subseteq> c1"
        using "2.IH"(2) [OF notin False f task inner] .
      moreover have "c1 \<subseteq> checked'"
        using "2.IH"(3) [OF notin False f task inner outer] .
      ultimately show ?thesis by blast
    qed
  qed
qed

lemma dependentsOf_Some: "map_of tc t = Some task \<Longrightarrow> dependentsOf tc t = dependents task"
  by (simp add: dependentsOf_def)

lemma check_fuel:
  assumes closed: "closedCollection tc"
  shows "checkForCyclicDependencies fuel tc ts chain checked = Inl e \<Longrightarrow>
         set ts \<subseteq> registered tc \<Longrightarrow> card (registered tc - checked) \<le> fuel \<Longrightarrow>
         \<exists>c. e = CyclicDependency c"
  using closed
proof (induction fuel tc ts chain checked arbitrary: e rule: checkForCyclicDependencies.induct)
  case (1 fuel tc chain checked)
  then show ?case by simp
next
  case (2 fuel tc t ts chain checked)
  have fin: "finite (registered tc)" by (simp add: registered_def)
  show ?case
  proof (cases "t \<in> set chain")
    case True
    with "2.prems" show ?thesis by auto
  next
    case notin: False
    show ?thesis
    proof (cases "t \<in> checked")
      case True
      with notin "2.prems" "2.IH"(1) show ?thesis by simp
    next
      case False
      have treg: "t \<in> registered tc" using "2.prems" by simp
      then have "t \<in> registered tc - checked" using False by simp
      then have pos: "0 < card (registered tc - checked)"
        using fin by (metis card_gt_0_iff empty_iff finite_Diff)
      then obtain f where f: "fuel = Suc f" using "2.prems"(3) by (cases fuel) auto
      obtain task where task: "map_of tc t = Some task"
        using treg by (auto simp: registered_dom)
      have sub: "set (dependents task) \<subseteq> registered tc"
        using "2.prems"(4) dependentsOf_Some [OF task] unfolding closedCollection_def by metis
      have "registered tc - insert t checked = (registered tc - checked) - {t}" by blast
      then have "card (registered tc - insert t checked) = card (registered tc - checked) - 1"
        using \<open>t \<in> registered tc - checked\<close> fin by simp
      then have cardf: "card (registered tc - insert t checked) \<le> f"
        using "2.prems"(3) f by simp
      show ?thesis
      proof (cases "checkForCyclicDependencies f tc (dependents task) (chain @ [t]) (insert t checked)")
        case (Inl e')
        then have "e = e'" using "2.prems"(1) notin False f task by simp
        with "2.IH"(2) [OF notin False f task Inl sub cardf "2.prems"(4)] show ?thesis by simp
      next
        case (Inr c1)
        then have outer: "checkForCyclicDependencies fuel tc ts chain c1 = Inl e"
          using "2.prems"(1) notin False f task by simp
        have "checked \<subseteq> c1" using check_mono [OF Inr] by blast
        then have "registered tc - c1 \<subseteq> registered tc - checked" by blast
        then have "card (registered tc - c1) \<le> card (registered tc - checked)"
          using fin by (simp add: card_mono)
        then have c: "card (registered tc - c1) \<le> fuel" using "2.prems"(3) by simp
        have "set ts \<subseteq> registered tc" using "2.prems"(2) by simp
        from "2.IH"(3) [OF notin False f task Inr outer this c "2.prems"(4)] show ?thesis .
      qed
    qed
  qed
qed

lemma check_sound:
  "checkForCyclicDependencies fuel tc ts chain checked = Inl (CyclicDependency c) \<Longrightarrow>
   dependentPath tc chain \<Longrightarrow>
   (chain \<noteq> [] \<longrightarrow> set ts \<subseteq> set (dependentsOf tc (last chain))) \<Longrightarrow>
   \<exists>ch t. c = rev (ch @ [t]) \<and> dependentPath tc (ch @ [t]) \<and> t \<in> set ch"
proof (induction fuel tc ts chain checked rule: checkForCyclicDependencies.induct)
  case (1 fuel tc chain checked)
  then show ?case by simp
next
  case (2 fuel tc t ts chain checked)
  have rest: "chain \<noteq> [] \<longrightarrow> set ts \<subseteq> set (dependentsOf tc (last chain))"
    using "2.prems"(3) by simp
  show ?case
  proof (cases "t \<in> set chain")
    case True
    then have c: "c = rev (chain @ [t])" using "2.prems"(1) by simp
    have "chain \<noteq> []" using True by auto
    then have "dependentPath tc (chain @ [t])"
      using "2.prems"(2,3) by (simp add: dependentPath_snoc)
    with c True show ?thesis by blast
  next
    case notin: False
    show ?thesis
    proof (cases "t \<in> checked")
      case True
      with notin "2.prems" "2.IH"(1) rest show ?thesis by simp
    next
      case False
      from notin False "2.prems"(1) obtain f task where
        f: "fuel = Suc f" and task: "map_of tc t = Some task"
        by (auto split: nat.splits option.splits)
      have path': "dependentPath tc (chain @ [t])"
        using "2.prems"(2,3) by (simp add: dependentPath_snoc)
      have sub': "chain @ [t] \<noteq> [] \<longrightarrow>
                  set (dependents task) \<subseteq> set (dependentsOf tc (last (chain @ [t])))"
        using dependentsOf_Some [OF task] by simp
      show ?thesis
      proof (cases "checkForCyclicDependencies f tc (dependents task) (chain @ [t]) (insert t checked)")
        case (Inl e')
        then have "e' = CyclicDependency c" using "2.prems"(1) notin False f task by simp
        with Inl "2.IH"(2) [OF notin False f task _ path' sub'] show ?thesis by simp
      next
        case (Inr c1)
        then have outer: "checkForCyclicDependencies fuel tc ts chain c1 = Inl (CyclicDependency c)"
          using "2.prems"(1) notin False f task by simp
        from "2.IH"(3) [OF notin False f task Inr outer "2.prems"(2) rest] show ?thesis .
      qed
    qed
  qed
qed

lemma settled_closed:
  assumes "settled tc chain checked" "(x, y) \<in> (dependentEdges tc)\<^sup>*" "x \<in> checked - set chain"
  shows "y \<in> checked - set chain"
  using assms(2,3)
proof (induction rule: rtrancl_induct)
  case base
  then show ?case .
next
  case (step y z)
  then have "y \<in> checked - set chain" by simp
  with assms(1) have "set (dependentsOf tc y) \<subseteq> checked - set chain"
    by (simp add: settled_def)
  with step(2) show ?case by (auto simp: dependentEdges_def)
qed

lemma check_complete:
  "checkForCyclicDependencies fuel tc ts chain checked = Inr checked' \<Longrightarrow>
   settled tc chain checked \<Longrightarrow> set chain \<subseteq> checked \<Longrightarrow>
   set ts \<subseteq> checked' - set chain \<and> settled tc chain checked'"
proof (induction fuel tc ts chain checked arbitrary: checked' rule: checkForCyclicDependencies.induct)
  case (1 fuel tc chain checked)
  then show ?case by simp
next
  case (2 fuel tc t ts chain checked)
  show ?case
  proof (cases "t \<in> set chain")
    case True
    with "2.prems" show ?thesis by simp
  next
    case notin: False
    show ?thesis
    proof (cases "t \<in> checked")
      case True
      then have run: "checkForCyclicDependencies fuel tc ts chain checked = Inr checked'"
        using notin "2.prems"(1) by simp
      from "2.IH"(1) [OF notin True run "2.prems"(2,3)]
      have r: "set ts \<subseteq> checked' - set chain" "settled tc chain checked'" by simp_all
      have "checked \<subseteq> checked'" using check_mono [OF run] .
      with True notin r show ?thesis by auto
    next
      case False
      with notin "2.prems"(1) obtain f task c1 where
        f: "fuel = Suc f" and task: "map_of tc t = Some task" and
        inner: "checkForCyclicDependencies f tc (dependents task) (chain @ [t]) (insert t checked) = Inr c1" and
        outer: "checkForCyclicDependencies fuel tc ts chain c1 = Inr checked'"
        by (auto split: nat.splits option.splits sum.splits)
      have eq: "insert t checked - set (chain @ [t]) = checked - set chain"
        using False by auto
      have s1: "settled tc (chain @ [t]) (insert t checked)"
        using "2.prems"(2) unfolding settled_def eq .
      have sub1: "set (chain @ [t]) \<subseteq> insert t checked" using "2.prems"(3) by auto
      from "2.IH"(2) [OF notin False f task inner s1 sub1]
      have d: "set (dependents task) \<subseteq> c1 - set (chain @ [t])"
        and s2: "settled tc (chain @ [t]) c1" by simp_all
      have tc1: "t \<in> c1" using check_mono [OF inner] by blast
      have split: "c1 - set chain = insert t (c1 - set (chain @ [t]))"
        using tc1 notin by auto
      have tnocycle: "(t, t) \<notin> (dependentEdges tc)\<^sup>+"
      proof
        assume "(t, t) \<in> (dependentEdges tc)\<^sup>+"
        then obtain s where ts: "(t, s) \<in> dependentEdges tc" and st: "(s, t) \<in> (dependentEdges tc)\<^sup>*"
          by (meson tranclD)
        have "s \<in> c1 - set (chain @ [t])"
          using ts d dependentsOf_Some [OF task] by (auto simp: dependentEdges_def)
        from settled_closed [OF s2 st this] show False by simp
      qed
      have s3: "settled tc chain c1"
        unfolding settled_def split
      proof (intro ballI)
        fix x assume x: "x \<in> insert t (c1 - set (chain @ [t]))"
        show "(x, x) \<notin> (dependentEdges tc)\<^sup>+ \<and>
              set (dependentsOf tc x) \<subseteq> insert t (c1 - set (chain @ [t]))"
        proof (cases "x = t")
          case True
          with tnocycle d dependentsOf_Some [OF task] show ?thesis by auto
        next
          case False
          with x have "x \<in> c1 - set (chain @ [t])" by simp
          with s2 show ?thesis unfolding settled_def by blast
        qed
      qed
      have sub3: "set chain \<subseteq> c1" using "2.prems"(3) check_mono [OF inner] by blast
      from "2.IH"(3) [OF notin False f task inner outer s3 sub3]
      have r: "set ts \<subseteq> checked' - set chain" "settled tc chain checked'" by simp_all
      have "c1 \<subseteq> checked'" using check_mono [OF outer] .
      with tc1 notin r show ?thesis by auto
    qed
  qed
qed

lemma erase_updateTask [simp]:
  "erase (updateTask n (\<lambda>t. t\<lparr>criticalPathLength := x\<rparr>) tc) = erase tc"
  by (induction tc) (auto simp: erase_def)

lemma map_of_erase:
  "map_of (erase tc) k = map_option (\<lambda>t. t\<lparr>criticalPathLength := None\<rparr>) (map_of tc k)"
  unfolding erase_def by (induction tc) auto

lemma erase_dependentsOf:
  assumes "erase tc' = erase tc"
  shows "dependentsOf tc' = dependentsOf tc"
proof
  fix k
  have "map_option (\<lambda>t. t\<lparr>criticalPathLength := None\<rparr>) (map_of tc' k)
        = map_option (\<lambda>t. t\<lparr>criticalPathLength := None\<rparr>) (map_of tc k)"
    using assms by (metis map_of_erase)
  then show "dependentsOf tc' k = dependentsOf tc k"
    by (cases "map_of tc' k"; cases "map_of tc k")
       (auto simp: dependentsOf_def, metis Task.select_convs(4) Task.surjective Task.update_convs(5))
qed

lemma erase_registered:
  assumes "erase tc' = erase tc"
  shows "registered tc' = registered tc"
proof -
  have "map fst (erase tc') = map fst (erase tc)" using assms by simp
  then show ?thesis by (simp add: registered_def erase_def case_prod_unfold comp_def)
qed

lemma lengths_unique:
  "list_all2 (\<lambda>d x. m d = Some x) ds ls \<Longrightarrow> list_all2 (\<lambda>d x. m d = Some x) ds ls' \<Longrightarrow> ls = ls'"
proof (induction ds arbitrary: ls ls')
  case Nil
  then show ?case by simp
next
  case (Cons d ds)
  then show ?case by (auto simp: list_all2_Cons1)
qed

lemma lengths_le:
  "list_all2 (\<lambda>d x. m d = Some x) ds ls \<Longrightarrow> m \<subseteq>\<^sub>m m' \<Longrightarrow> list_all2 (\<lambda>d x. m' d = Some x) ds ls"
  by (erule list_all2_mono) (auto simp: map_le_def dom_def)

lemma lengthOf_updateTask:
  "map_of tc n = Some task \<Longrightarrow>
   lengthOf (updateTask n (\<lambda>t. t\<lparr>criticalPathLength := Some L\<rparr>) tc) = (lengthOf tc)(n \<mapsto> L)"
  by (rule ext) (simp add: lengthOf_def map_of_updateTask)

lemma dependentsOf_updateTask [simp]:
  "dependentsOf (updateTask n (\<lambda>t. t\<lparr>criticalPathLength := x\<rparr>) tc) = dependentsOf tc"
  by (rule erase_dependentsOf) simp

lemma memoOK_extend:
  assumes ok: "memoOK tc" and reg: "map_of tc n = Some task"
    and ls: "list_all2 (\<lambda>d x. lengthOf tc d = Some x) (dependentsOf tc n) ls"
    and L: "L = (if dependentsOf tc n = [] then 0 else Math_max ls + 1)"
  shows "memoOK (updateTask n (\<lambda>t. t\<lparr>criticalPathLength := Some L\<rparr>) tc) \<and>
         lengthOf tc \<subseteq>\<^sub>m lengthOf (updateTask n (\<lambda>t. t\<lparr>criticalPathLength := Some L\<rparr>) tc)"
proof -
  let ?tc' = "updateTask n (\<lambda>t. t\<lparr>criticalPathLength := Some L\<rparr>) tc"
  have len: "lengthOf ?tc' = (lengthOf tc)(n \<mapsto> L)" using reg by (rule lengthOf_updateTask)
  have same: "lengthOf tc n = Some l0 \<Longrightarrow> l0 = L" for l0
  proof -
    assume "lengthOf tc n = Some l0"
    with ok obtain ls0 where
      "list_all2 (\<lambda>d x. lengthOf tc d = Some x) (dependentsOf tc n) ls0"
      "l0 = (if dependentsOf tc n = [] then 0 else Math_max ls0 + 1)"
      unfolding memoOK_def by blast
    with ls L lengths_unique show "l0 = L" by metis
  qed
  have le: "lengthOf tc \<subseteq>\<^sub>m lengthOf ?tc'"
    unfolding len map_le_def using same by auto
  have "memoOK ?tc'"
    unfolding memoOK_def
  proof (intro allI impI)
    fix k l assume kl: "lengthOf ?tc' k = Some l"
    have "\<exists>ls'. list_all2 (\<lambda>d x. lengthOf tc d = Some x) (dependentsOf tc k) ls' \<and>
              l = (if dependentsOf tc k = [] then 0 else Math_max ls' + 1)"
    proof (cases "k = n")
      case True
      with kl len have "l = L" by simp
      with ls L True show ?thesis by blast
    next
      case False
      with kl len have "lengthOf tc k = Some l" by simp
      with ok show ?thesis unfolding memoOK_def by blast
    qed
    then obtain ls' where a: "list_all2 (\<lambda>d x. lengthOf tc d = Some x) (dependentsOf tc k) ls'"
      and b: "l = (if dependentsOf tc k = [] then 0 else Math_max ls' + 1)" by blast
    from lengths_le [OF a le] b
    show "\<exists>ls. list_all2 (\<lambda>d x. lengthOf ?tc' d = Some x) (dependentsOf ?tc' k) ls \<and>
              l = (if dependentsOf ?tc' k = [] then 0 else Math_max ls + 1)"
      by auto
  qed
  with le show ?thesis by simp
qed

lemma calc_correct:
  "(calculateCriticalPaths fuel n tc = Inr (l, tc') \<longrightarrow> memoOK tc \<longrightarrow>
      erase tc' = erase tc \<and> memoOK tc' \<and> lengthOf tc \<subseteq>\<^sub>m lengthOf tc' \<and> lengthOf tc' n = Some l)"
  "(calculateDependents fuel ds tc = Inr (ls, tc') \<longrightarrow> memoOK tc \<longrightarrow>
      erase tc' = erase tc \<and> memoOK tc' \<and> lengthOf tc \<subseteq>\<^sub>m lengthOf tc' \<and>
      list_all2 (\<lambda>d x. lengthOf tc' d = Some x) ds ls)"
proof (induction fuel n tc and fuel ds tc arbitrary: l tc' and ls tc'
       rule: calculateCriticalPaths_calculateDependents.induct)
  case (1 n tc)
  then show ?case by simp
next
  case (2 fuel n tc)
  show ?case
  proof (intro impI)
    assume run: "calculateCriticalPaths (Suc fuel) n tc = Inr (l, tc')" and ok: "memoOK tc"
    from run obtain task where task: "map_of tc n = Some task"
      by (auto split: option.splits)
    show "erase tc' = erase tc \<and> memoOK tc' \<and> lengthOf tc \<subseteq>\<^sub>m lengthOf tc' \<and> lengthOf tc' n = Some l"
    proof (cases "criticalPathLength task")
      case (Some l0)
      with run task have "l = l0" "tc' = tc" by simp_all
      with ok task Some show ?thesis by (simp add: lengthOf_def)
    next
      case None
      show ?thesis
      proof (cases "dependents task = []")
        case True
        with run task None have l: "l = 0"
          and tc': "tc' = updateTask n (\<lambda>t. t\<lparr>criticalPathLength := Some 0\<rparr>) tc" by simp_all
        have d: "dependentsOf tc n = []" using task True by (simp add: dependentsOf_def)
        have "memoOK tc' \<and> lengthOf tc \<subseteq>\<^sub>m lengthOf tc'"
          unfolding tc' by (rule memoOK_extend [OF ok task, of "[]"]) (simp_all add: d)
        moreover have "lengthOf tc' n = Some l"
          unfolding tc' l using lengthOf_updateTask [OF task] by simp
        ultimately show ?thesis unfolding tc' by simp
      next
        case False
        with run task None obtain ls tc1 where
          inner: "calculateDependents fuel (dependents task) tc = Inr (ls, tc1)" and
          l: "l = Math_max ls + 1" and
          tc': "tc' = updateTask n (\<lambda>t. t\<lparr>criticalPathLength := Some (Math_max ls + 1)\<rparr>) tc1"
          by (auto split: sum.splits)
        from "2.IH" [OF task None False, of ls tc1] inner ok
        have e1: "erase tc1 = erase tc" and ok1: "memoOK tc1"
          and le1: "lengthOf tc \<subseteq>\<^sub>m lengthOf tc1"
          and ls: "list_all2 (\<lambda>d x. lengthOf tc1 d = Some x) (dependents task) ls"
          by simp_all
        have deps: "dependentsOf tc1 n = dependents task"
          using erase_dependentsOf [OF e1] task by (simp add: dependentsOf_def)
        obtain task1 where task1: "map_of tc1 n = Some task1"
          using erase_registered [OF e1] task by (auto simp: registered_dom)
        have "memoOK tc' \<and> lengthOf tc1 \<subseteq>\<^sub>m lengthOf tc'"
          unfolding tc'
          by (rule memoOK_extend [OF ok1 task1, of ls]) (simp_all add: deps ls False)
        moreover have "lengthOf tc' n = Some l"
          unfolding tc' l using lengthOf_updateTask [OF task1] by simp
        moreover have "erase tc' = erase tc" unfolding tc' using e1 by simp
        ultimately show ?thesis using le1 by (auto intro: map_le_trans)
      qed
    qed
  qed
next
  case (3 fuel tc)
  then show ?case by auto
next
  case (4 fuel d ds tc)
  show ?case
  proof (intro impI)
    assume run: "calculateDependents fuel (d # ds) tc = Inr (ls, tc')" and ok: "memoOK tc"
    from run obtain x tc1 xs where
      first: "calculateCriticalPaths fuel d tc = Inr (x, tc1)" and
      rest: "calculateDependents fuel ds tc1 = Inr (xs, tc')" and
      ls: "ls = x # xs"
      by (auto split: sum.splits)
    from "4.IH"(1) [of x tc1] first ok
    have e1: "erase tc1 = erase tc" and ok1: "memoOK tc1"
      and le1: "lengthOf tc \<subseteq>\<^sub>m lengthOf tc1" and x: "lengthOf tc1 d = Some x"
      by simp_all
    from "4.IH"(2) [OF first refl, of xs tc'] rest ok1
    have e2: "erase tc' = erase tc1" and ok2: "memoOK tc'"
      and le2: "lengthOf tc1 \<subseteq>\<^sub>m lengthOf tc'"
      and xs: "list_all2 (\<lambda>d x. lengthOf tc' d = Some x) ds xs"
      by simp_all
    have "lengthOf tc' d = Some x" using x le2 by (auto simp: map_le_def dom_def)
    with e1 e2 ok2 le1 le2 xs ls
    show "erase tc' = erase tc \<and> memoOK tc' \<and> lengthOf tc \<subseteq>\<^sub>m lengthOf tc' \<and>
          list_all2 (\<lambda>d x. lengthOf tc' d = Some x) (d # ds) ls"
      by (auto intro: map_le_trans)
  qed
qed

lemma dependentPath_cong: "dependentsOf tc' = dependentsOf tc \<Longrightarrow> dependentPath tc' p = dependentPath tc p"
  by (induction tc p rule: dependentPath.induct) auto

lemma erase_facts:
  assumes "erase tc' = erase tc"
  shows "acyclicDependents tc' = acyclicDependents tc" "closedCollection tc' = closedCollection tc"
    "dependentPath tc' p = dependentPath tc p"
proof -
  note d = erase_dependentsOf [OF assms] and r = erase_registered [OF assms]
  show "acyclicDependents tc' = acyclicDependents tc"
    by (simp add: acyclicDependents_def dependentEdges_def d)
  show "closedCollection tc' = closedCollection tc"
    by (simp add: closedCollection_def d r)
  show "dependentPath tc' p = dependentPath tc p"
    using d by (rule dependentPath_cong)
qed

lemma path_length_bound:
  assumes "distinct p" "set p \<subseteq> registered tc"
  shows "length p \<le> card (registered tc)"
proof -
  have "card (set p) \<le> card (registered tc)"
    using assms(2) by (simp add: card_mono registered_def)
  with assms(1) show ?thesis by (simp add: distinct_card)
qed

lemma calc_total:
  "acyclicDependents tc \<Longrightarrow> closedCollection tc \<Longrightarrow> memoOK tc \<Longrightarrow>
   p \<noteq> [] \<Longrightarrow> last p = n \<Longrightarrow> dependentPath tc p \<Longrightarrow> distinct p \<Longrightarrow> set p \<subseteq> registered tc \<Longrightarrow>
   card (registered tc) < length p + fuel \<Longrightarrow>
   \<exists>r. calculateCriticalPaths fuel n tc = Inr r"
  "acyclicDependents tc \<Longrightarrow> closedCollection tc \<Longrightarrow> memoOK tc \<Longrightarrow>
   q \<noteq> [] \<Longrightarrow> set ds \<subseteq> set (dependentsOf tc (last q)) \<Longrightarrow> dependentPath tc q \<Longrightarrow> distinct q \<Longrightarrow>
   set q \<subseteq> registered tc \<Longrightarrow> card (registered tc) \<le> length q + fuel \<Longrightarrow>
   \<exists>r. calculateDependents fuel ds tc = Inr r"
proof (induction fuel n tc and fuel ds tc arbitrary: p and q
       rule: calculateCriticalPaths_calculateDependents.induct)
  case (1 n tc)
  from path_length_bound [OF "1.prems"(7,8)] "1.prems"(9) show ?case by simp
next
  case (2 fuel n tc)
  have "n \<in> set p" using "2.prems"(4,5) by auto
  then have "n \<in> registered tc" using "2.prems"(8) by auto
  then obtain task where task: "map_of tc n = Some task" by (auto simp: registered_dom)
  show ?case
  proof (cases "criticalPathLength task")
    case (Some l0)
    with task show ?thesis by simp
  next
    case None
    show ?thesis
    proof (cases "dependents task = []")
      case True
      with task None show ?thesis by simp
    next
      case False
      have sub: "set (dependents task) \<subseteq> set (dependentsOf tc (last p))"
        using task "2.prems"(5) by (simp add: dependentsOf_def)
      have "card (registered tc) \<le> length p + fuel" using "2.prems"(9) by simp
      from "2.IH" [OF task None False "2.prems"(1,2,3,4) sub "2.prems"(6,7,8) this]
      obtain r where "calculateDependents fuel (dependents task) tc = Inr r" by blast
      with task None False show ?thesis by (cases r) simp
    qed
  qed
next
  case (3 fuel tc)
  then show ?case by simp
next
  case (4 fuel d ds tc)
  have edge: "(last q, d) \<in> dependentEdges tc"
    using "4.prems"(5) by (auto simp: dependentEdges_def)
  have dnotin: "d \<notin> set q"
  proof
    assume "d \<in> set q"
    from dependentPath_reach [OF "4.prems"(6) this] edge
    have "(d, d) \<in> (dependentEdges tc)\<^sup>+" by (rule rtrancl_into_trancl1)
    with "4.prems"(1) show False by (simp add: acyclicDependents_def)
  qed
  have dreg: "d \<in> registered tc"
    using "4.prems"(2,5) unfolding closedCollection_def by auto
  have p1: "q @ [d] \<noteq> []" "last (q @ [d]) = d" "dependentPath tc (q @ [d])"
    "distinct (q @ [d])" "set (q @ [d]) \<subseteq> registered tc"
    "card (registered tc) < length (q @ [d]) + fuel"
    using "4.prems"(4,5,6,7,8,9) dnotin dreg by (simp_all add: dependentPath_snoc)
  from "4.IH"(1) [OF "4.prems"(1,2,3) p1]
  obtain x tc1 where first: "calculateCriticalPaths fuel d tc = Inr (x, tc1)" by auto
  from calc_correct(1) [of fuel d tc x tc1] first "4.prems"(3)
  have e1: "erase tc1 = erase tc" and ok1: "memoOK tc1" by simp_all
  note f = erase_facts [OF e1] erase_dependentsOf [OF e1] erase_registered [OF e1]
  have "\<exists>r. calculateDependents fuel ds tc1 = Inr r"
  proof (rule "4.IH"(2) [OF first refl, of q])
    show "acyclicDependents tc1" "closedCollection tc1" "memoOK tc1" "q \<noteq> []"
      "dependentPath tc1 q" "distinct q"
      using "4.prems" ok1 by (simp_all add: f(1,2,3))
    show "set ds \<subseteq> set (dependentsOf tc1 (last q))" using "4.prems"(5) by (simp add: f(4))
    show "set q \<subseteq> registered tc1" "card (registered tc1) \<le> length q + fuel"
      using "4.prems"(8,9) by (simp_all add: f(5))
  qed
  then obtain xs tc2 where "calculateDependents fuel ds tc1 = Inr (xs, tc2)" by auto
  with first show ?case by simp
qed

lemma calculateAll_total:
  "acyclicDependents tc \<Longrightarrow> closedCollection tc \<Longrightarrow> memoOK tc \<Longrightarrow>
   set ns \<subseteq> registered tc \<Longrightarrow> card (registered tc) \<le> fuel \<Longrightarrow>
   \<exists>tc'. calculateAll fuel ns tc = Inr tc' \<and> erase tc' = erase tc \<and> memoOK tc' \<and>
         lengthOf tc \<subseteq>\<^sub>m lengthOf tc' \<and> (\<forall>n \<in> set ns. lengthOf tc' n \<noteq> None)"
proof (induction ns arbitrary: tc)
  case Nil
  then show ?case by simp
next
  case (Cons n ns)
  have "finite (registered tc)" by (simp add: registered_def)
  then have pos: "card (registered tc) < length [n] + fuel" using Cons.prems(5) by simp
  have "\<exists>r. calculateCriticalPaths fuel n tc = Inr r"
    by (rule calc_total(1) [OF Cons.prems(1,2,3), of "[n]"]) (use Cons.prems(4) pos in simp_all)
  then obtain l tc1 where first: "calculateCriticalPaths fuel n tc = Inr (l, tc1)" by auto
  from calc_correct(1) [of fuel n tc l tc1] first Cons.prems(3)
  have e1: "erase tc1 = erase tc" and ok1: "memoOK tc1"
    and le1: "lengthOf tc \<subseteq>\<^sub>m lengthOf tc1" and l: "lengthOf tc1 n = Some l" by simp_all
  note f = erase_facts [OF e1] erase_registered [OF e1]
  have "\<exists>tc'. calculateAll fuel ns tc1 = Inr tc' \<and> erase tc' = erase tc1 \<and> memoOK tc' \<and>
         lengthOf tc1 \<subseteq>\<^sub>m lengthOf tc' \<and> (\<forall>n \<in> set ns. lengthOf tc' n \<noteq> None)"
  proof (rule Cons.IH)
    show "acyclicDependents tc1" "closedCollection tc1" "memoOK tc1"
      using Cons.prems ok1 by (simp_all add: f(1,2))
    show "set ns \<subseteq> registered tc1" "card (registered tc1) \<le> fuel"
      using Cons.prems(4,5) by (simp_all add: f(4))
  qed
  then obtain tc' where r: "calculateAll fuel ns tc1 = Inr tc'" "erase tc' = erase tc1" "memoOK tc'"
    "lengthOf tc1 \<subseteq>\<^sub>m lengthOf tc'" "\<forall>n \<in> set ns. lengthOf tc' n \<noteq> None" by blast
  have "lengthOf tc' n = Some l" using l r(4) by (auto simp: map_le_def dom_def)
  with first r e1 le1 show ?case by (auto intro: map_le_trans)
qed

lemma wellFormed_lookup:
  assumes "wellFormed tc" "map_of tc k = Some t"
  shows "Task_name t = k" "criticalPathLength t = None"
    "\<forall>d \<in> set (dependencies t). k \<in> set (dependentsOf tc d)"
    "\<forall>d \<in> set (dependents t). k \<in> set (dependenciesOf tc d)"
proof -
  have "(k, t) \<in> set tc" using assms(2) by (rule map_of_SomeD)
  with assms(1) show "Task_name t = k" "criticalPathLength t = None"
    "\<forall>d \<in> set (dependencies t). k \<in> set (dependentsOf tc d)"
    "\<forall>d \<in> set (dependents t). k \<in> set (dependenciesOf tc d)"
    unfolding wellFormed_def by auto
qed

lemma wellFormed_inverse:
  assumes "wellFormed tc"
  shows "dependsOn tc = (dependentEdges tc)\<inverse>"
proof -
  have "b \<in> set (dependenciesOf tc a) \<longleftrightarrow> a \<in> set (dependentsOf tc b)" for a b
  proof
    assume "b \<in> set (dependenciesOf tc a)"
    then obtain t where "map_of tc a = Some t" "b \<in> set (dependencies t)"
      by (cases "map_of tc a") (auto simp: dependenciesOf_def)
    with wellFormed_lookup(3) [OF assms] show "a \<in> set (dependentsOf tc b)" by blast
  next
    assume "a \<in> set (dependentsOf tc b)"
    then obtain t where "map_of tc b = Some t" "a \<in> set (dependents t)"
      by (cases "map_of tc b") (auto simp: dependentsOf_def)
    with wellFormed_lookup(4) [OF assms] show "b \<in> set (dependenciesOf tc a)" by blast
  qed
  then show ?thesis by (auto simp: dependsOn_def dependentEdges_def)
qed

lemma wellFormed_cyclic:
  assumes "wellFormed tc"
  shows "cyclic tc \<longleftrightarrow> \<not> acyclicDependents tc"
  unfolding cyclic_def acyclicDependents_def wellFormed_inverse [OF assms] trancl_converse
  by auto

lemma wellFormed_closed:
  assumes "wellFormed tc"
  shows "closedCollection tc"
  unfolding closedCollection_def
proof (intro allI subsetI)
  fix a d assume "d \<in> set (dependentsOf tc a)"
  then have "(d, a) \<in> dependsOn tc"
    unfolding wellFormed_inverse [OF assms] by (simp add: dependentEdges_def)
  then have "a \<in> set (dependenciesOf tc d)" by (simp add: dependsOn_def)
  then show "d \<in> registered tc"
    by (cases "map_of tc d") (auto simp: dependenciesOf_def registered_dom)
qed

lemma wellFormed_memoOK:
  assumes "wellFormed tc"
  shows "memoOK tc"
  unfolding memoOK_def lengthOf_def
  using wellFormed_lookup(2) [OF assms] by (auto split: option.splits)

lemma wellFormed_card:
  assumes "wellFormed tc"
  shows "card (registered tc) = length tc"
  using assms distinct_card [of "map fst tc"] by (simp add: wellFormed_def registered_def)

lemma wellFormed_erase: "wellFormed tc \<Longrightarrow> erase tc = tc"
  unfolding erase_def
proof (rule map_idI)
  fix x assume wf: "wellFormed tc" and "x \<in> set tc"
  then have "criticalPathLength (snd x) = None" unfolding wellFormed_def by auto
  then show "(case x of (k, t) \<Rightarrow> (k, t\<lparr>criticalPathLength := None\<rparr>)) = x"
    by (cases x) simp
qed

lemma dependsOnPath_snoc:
  "dependsOnPath tc (q @ [y]) \<Longrightarrow> x \<in> set (dependenciesOf tc y) \<Longrightarrow> dependsOnPath tc (q @ [y, x])"
  by (induction tc q rule: dependsOnPath.induct) auto

lemma dependentPath_rev:
  assumes wf: "wellFormed tc"
  shows "dependentPath tc p \<Longrightarrow> dependsOnPath tc (rev p)"
proof (induction p rule: induct_list012)
  case (3 x y ys)
  have "(y, x) \<in> dependsOn tc"
    using "3.prems" unfolding wellFormed_inverse [OF wf] by (simp add: dependentEdges_def)
  then have "x \<in> set (dependenciesOf tc y)" by (simp add: dependsOn_def)
  moreover have "dependsOnPath tc (rev ys @ [y])" using 3 by simp
  ultimately show ?case using dependsOnPath_snoc [of tc "rev ys" y x] by simp
qed auto

lemma check_top:
  assumes wf: "wellFormed tc"
  shows "(cyclic tc \<longrightarrow> (\<exists>chain. checkForCyclicDependencies (length tc) tc (map fst tc) [] {}
             = Inl (CyclicDependency chain) \<and> namesCycle tc chain)) \<and>
         (\<not> cyclic tc \<longrightarrow> (\<exists>checked. checkForCyclicDependencies (length tc) tc (map fst tc) [] {}
             = Inr checked))"
proof (cases "checkForCyclicDependencies (length tc) tc (map fst tc) [] {}")
  case (Inl e)
  have "set (map fst tc) \<subseteq> registered tc" "card (registered tc - {}) \<le> length tc"
    using wellFormed_card [OF wf] by (simp_all add: registered_def)
  from check_fuel [OF wellFormed_closed [OF wf] Inl this]
  obtain c where e: "e = CyclicDependency c" by blast
  from check_sound [of "length tc" tc "map fst tc" "[]" "{}" c] Inl e
  obtain ch t where c: "c = rev (ch @ [t])" and path: "dependentPath tc (ch @ [t])"
    and t: "t \<in> set ch" by auto
  have "namesCycle tc c"
    using dependentPath_rev [OF wf path] t unfolding c namesCycle_def by simp
  moreover have "cyclic tc"
  proof -
    have "ch \<noteq> []" using t by auto
    then have edge: "(last ch, t) \<in> dependentEdges tc" and p: "dependentPath tc ch"
      using path by (simp_all add: dependentPath_snoc dependentEdges_def)
    from dependentPath_reach [OF p t] edge have "(t, t) \<in> (dependentEdges tc)\<^sup>+"
      by (rule rtrancl_into_trancl1)
    then show ?thesis
      unfolding wellFormed_cyclic [OF wf] acyclicDependents_def by blast
  qed
  ultimately show ?thesis using Inl e by simp
next
  case (Inr checked)
  have "settled tc [] {}" by (simp add: settled_def)
  from check_complete [OF Inr this]
  have all: "set (map fst tc) \<subseteq> checked" and s: "settled tc [] checked" by simp_all
  have "acyclicDependents tc"
    unfolding acyclicDependents_def
  proof (intro allI notI)
    fix a assume cyc: "(a, a) \<in> (dependentEdges tc)\<^sup>+"
    then obtain b where "(a, b) \<in> dependentEdges tc" by (meson tranclD)
    then have "a \<in> registered tc"
      by (auto simp: dependentEdges_def dest: dependentsOf_registered)
    then have "a \<in> checked" using all by (auto simp: registered_def)
    with s cyc show False by (simp add: settled_def)
  qed
  then show ?thesis using Inr by (simp add: wellFormed_cyclic [OF wf])
qed

lemma calculateAll_top:
  assumes wf: "wellFormed tc" and acyc: "\<not> cyclic tc"
  shows "\<exists>tc'. calculateAll (length tc) (map fst tc) tc = Inr tc' \<and> erase tc' = tc \<and>
           memoOK tc' \<and> (\<forall>n \<in> registered tc. lengthOf tc' n \<noteq> None)"
proof -
  have "acyclicDependents tc" using acyc by (simp add: wellFormed_cyclic [OF wf])
  from calculateAll_total [OF this wellFormed_closed [OF wf] wellFormed_memoOK [OF wf],
      of "map fst tc" "length tc"] wellFormed_card [OF wf]
  show ?thesis by (auto simp: registered_def wellFormed_erase [OF wf])
qed

lemmas build_simps = addTask_def addDependencies_def hasTask_def newTask_def Task_name_def setAdd_def Let_def

lemma twoTaskCycle_eval:
  assumes "ProjectBuilder_name a \<noteq> ProjectBuilder_name b"
  shows "twoTaskCycle a b =
    [(ProjectBuilder_name a, \<lparr>builder = a, status = Ready, dependencies = [ProjectBuilder_name b],
        dependents = [ProjectBuilder_name b], criticalPathLength = None\<rparr>),
     (ProjectBuilder_name b, \<lparr>builder = b, status = Ready, dependencies = [ProjectBuilder_name a],
        dependents = [ProjectBuilder_name a], criticalPathLength = None\<rparr>)]"
  using assms by (simp add: twoTaskCycle_def build_simps)

lemma twoTaskCycle_result:
  assumes "ProjectBuilder_name a \<noteq> ProjectBuilder_name b"
  shows "getOrderedTasks (twoTaskCycle a b) =
     Inl (CyclicDependency [ProjectBuilder_name a, ProjectBuilder_name b, ProjectBuilder_name a])"
  using assms
  by (simp add: twoTaskCycle_eval getOrderedTasks_def)

lemma linearChain_eval:
  assumes "distinct [ProjectBuilder_name a, ProjectBuilder_name b, ProjectBuilder_name c]"
  shows "linearChain a b c =
    [(ProjectBuilder_name a, \<lparr>builder = a, status = Ready, dependencies = [],
        dependents = [ProjectBuilder_name b], criticalPathLength = None\<rparr>),
     (ProjectBuilder_name b, \<lparr>builder = b, status = Ready, dependencies = [ProjectBuilder_name a],
        dependents = [ProjectBuilder_name c], criticalPathLength = None\<rparr>),
     (ProjectBuilder_name c, \<lparr>builder = c, status = Ready, dependencies = [ProjectBuilder_name b],
        dependents = [], criticalPathLength = None\<rparr>)]"
  using assms by (auto simp add: linearChain_def build_simps)

lemma linearChain_result:
  assumes "distinct [ProjectBuilder_name a, ProjectBuilder_name b, ProjectBuilder_name c]"
  shows "\<exists>tasks. getOrderedTasks (linearChain a b c) = Inr tasks \<and>
     map (\<lambda>t. (Task_name t, criticalPathLength t)) tasks =
       [(ProjectBuilder_name a, Some 2), (ProjectBuilder_name b, Some 1), (ProjectBuilder_name c, Some 0)]"
  using assms
  by (auto simp add: linearChain_eval getOrderedTasks_def sortBy_def negatedLength_def Math_max_def Task_name_def
        numeral_3_eq_3 numeral_2_eq_2)

lemmas example_simps = build_simps exampleBuilder_def ProjectBuilder_name_def getTaskName_def
  dependentsOf_def dependenciesOf_def

lemma wellFormed_twoTaskCycle:
  "wellFormed (twoTaskCycle (exampleBuilder ''A'') (exampleBuilder ''B''))"
  by (simp add: twoTaskCycle_def wellFormed_def example_simps)

lemma wellFormed_linearChain:
  "wellFormed (linearChain (exampleBuilder ''A'') (exampleBuilder ''B'') (exampleBuilder ''C''))"
  by (simp add: linearChain_def wellFormed_def example_simps)

lemma wellFormed_tiedTasks: "wellFormed tiedTasks"
  by (simp add: tiedTasks_def wellFormed_def example_simps)

lemma tie_break_helper:
  "\<exists>t u. getOrderedTasks tiedTasks = Inr [t, u] \<and> Task_name t = ''b'' \<and> Task_name u = ''a''"
  by (simp add: tiedTasks_def build_simps exampleBuilder_def ProjectBuilder_name_def getTaskName_def
       getOrderedTasks_def sortBy_def negatedLength_def)

lemma erase_member:
  assumes e: "erase tc' = tc" and m: "(k, t) \<in> set tc'"
  shows "(k, t\<lparr>criticalPathLength := None\<rparr>) \<in> set tc"
proof -
  have "(\<lambda>(k, t). (k, t\<lparr>criticalPathLength := None\<rparr>)) (k, t) \<in> set (erase tc')"
    unfolding erase_def using m by (metis (no_types, lifting) image_eqI list.set_map)
  then show ?thesis using e by simp
qed

lemma erase_keys: "map fst (erase tc) = map fst tc"
  by (simp add: erase_def case_prod_unfold comp_def)

lemma getOrderedTasks_acyclic:
  assumes wf: "wellFormed tc" and acyc: "\<not> cyclic tc"
  shows "\<exists>tc'. getOrderedTasks tc = Inr (sortBy negatedLength (map snd tc')) \<and> erase tc' = tc \<and>
           memoOK tc' \<and> (\<forall>n \<in> registered tc. lengthOf tc' n \<noteq> None)"
proof -
  from check_top [OF wf] acyc obtain checked where
    "checkForCyclicDependencies (length tc) tc (map fst tc) [] {} = Inr checked" by blast
  moreover from calculateAll_top [OF wf acyc] obtain tc' where
    "calculateAll (length tc) (map fst tc) tc = Inr tc'" "erase tc' = tc" "memoOK tc'"
    "\<forall>n \<in> registered tc. lengthOf tc' n \<noteq> None" by blast
  ultimately show ?thesis by (auto simp: getOrderedTasks_def)
qed

lemma getOrderedTasks_Inr:
  assumes wf: "wellFormed tc" and run: "getOrderedTasks tc = Inr tasks"
  shows "\<exists>tc'. tasks = sortBy negatedLength (map snd tc') \<and> erase tc' = tc \<and>
           memoOK tc' \<and> (\<forall>n \<in> registered tc. lengthOf tc' n \<noteq> None)"
proof -
  have "\<not> cyclic tc"
  proof
    assume "cyclic tc"
    with check_top [OF wf] obtain chain where
      "checkForCyclicDependencies (length tc) tc (map fst tc) [] {} = Inl (CyclicDependency chain)"
      by blast
    with run show False by (simp add: getOrderedTasks_def)
  qed
  from getOrderedTasks_acyclic [OF wf this] run show ?thesis by auto
qed

text \<open>What is known of the collection after the lengths are computed.\<close>

lemma computed_facts:
  assumes wf: "wellFormed tc" and e: "erase tc' = tc"
  shows "distinct (map fst tc')" "map fst tc' = map fst tc"
    "(k, t) \<in> set tc' \<Longrightarrow> Task_name t = k \<and> map_of tc k = Some (t\<lparr>criticalPathLength := None\<rparr>)
        \<and> map_of tc' k = Some t"
proof -
  show keys: "map fst tc' = map fst tc" using erase_keys [of tc'] e by simp
  show d: "distinct (map fst tc')" using wf keys by (simp add: wellFormed_def)
  assume m: "(k, t) \<in> set tc'"
  have m0: "(k, t\<lparr>criticalPathLength := None\<rparr>) \<in> set tc" using erase_member [OF e m] .
  have "distinct (map fst tc)" using wf by (simp add: wellFormed_def)
  then have l0: "map_of tc k = Some (t\<lparr>criticalPathLength := None\<rparr>)" using m0 by simp
  from wellFormed_lookup(1) [OF wf l0] have "Task_name t = k" by (simp add: Task_name_def)
  moreover have "map_of tc' k = Some t" using d m by simp
  ultimately show "Task_name t = k \<and> map_of tc k = Some (t\<lparr>criticalPathLength := None\<rparr>)
        \<and> map_of tc' k = Some t" using l0 by simp
qed

lemma set_sortBy [simp]: "set (sortBy f xs) = set xs" "length (sortBy f xs) = length xs"
  by (simp_all add: sortBy_def)

text \<open>
  Claim C1. For a collection built by \<open>addTask\<close> and \<open>addDependencies\<close>,
  \<open>getOrderedTasks\<close> throws the cyclic-dependency error, with a chain that names a
  cycle of the graph, whenever the dependency graph has a cycle, and returns all the
  registered tasks whenever it has none. For two tasks \<open>a\<close> and \<open>b\<close> that depend on
  each other the error names the chain \<open>a -> b -> a\<close>.
\<close>

theorem getOrderedTasks_cycle_detection:
  assumes "wellFormed tc" and "ProjectBuilder_name a \<noteq> ProjectBuilder_name b"
  shows "(cyclic tc \<longrightarrow>
            (\<exists>chain. getOrderedTasks tc = Inl (CyclicDependency chain) \<and> namesCycle tc chain)) \<and>
         (\<not> cyclic tc \<longrightarrow>
            (\<exists>tasks. getOrderedTasks tc = Inr tasks \<and> length tasks = length tc \<and>
               Task_name ` set tasks = registered tc \<and>
               (\<forall>t \<in> set tasks.
                  map_of tc (Task_name t) = Some (t\<lparr>criticalPathLength := None\<rparr>)))) \<and>
         getOrderedTasks (twoTaskCycle a b) =
           Inl (CyclicDependency [ProjectBuilder_name a, ProjectBuilder_name b, ProjectBuilder_name a]) \<and>
         cyclicDependencyMessage [ProjectBuilder_name a, ProjectBuilder_name b, ProjectBuilder_name a] =
           ''A cyclic dependency was encountered:'' @ [CHR 0x0A] @ ''  '' @ ProjectBuilder_name a
             @ [CHR 0x0A] @ ''  -> '' @ ProjectBuilder_name b
             @ [CHR 0x0A] @ ''  -> '' @ ProjectBuilder_name a @ [CHR 0x0A]
             @ ''Consider using the cyclicDependencyProjects option for rush.json.''"
proof (intro conjI impI)
  assume "cyclic tc"
  with check_top [OF assms(1)] obtain chain where
    "checkForCyclicDependencies (length tc) tc (map fst tc) [] {} = Inl (CyclicDependency chain)"
    "namesCycle tc chain" by blast
  then show "\<exists>chain. getOrderedTasks tc = Inl (CyclicDependency chain) \<and> namesCycle tc chain"
    by (auto simp: getOrderedTasks_def)
next
  assume "\<not> cyclic tc"
  from getOrderedTasks_acyclic [OF assms(1) this] obtain tc' where
    run: "getOrderedTasks tc = Inr (sortBy negatedLength (map snd tc'))" and e: "erase tc' = tc"
    by blast
  note f = computed_facts [OF assms(1) e]
  have len: "length (sortBy negatedLength (map snd tc')) = length tc"
    using arg_cong [OF f(2), of length] by simp
  have names: "Task_name ` set (sortBy negatedLength (map snd tc')) = registered tc"
  proof -
    have "Task_name (snd p) = fst p" if "p \<in> set tc'" for p
      using f(3) [of "fst p" "snd p"] that by simp
    then have "(Task_name \<circ> snd) ` set tc' = fst ` set tc'"
      by (intro image_cong) simp_all
    moreover have "fst ` set tc' = registered tc"
      using arg_cong [OF f(2), of set] by (simp add: registered_def)
    ultimately show ?thesis by (simp add: image_comp)
  qed
  have same: "\<forall>t \<in> set (sortBy negatedLength (map snd tc')).
                map_of tc (Task_name t) = Some (t\<lparr>criticalPathLength := None\<rparr>)"
  proof
    fix t assume "t \<in> set (sortBy negatedLength (map snd tc'))"
    then obtain k where "(k, t) \<in> set tc'" by auto
    from f(3) [OF this] show "map_of tc (Task_name t) = Some (t\<lparr>criticalPathLength := None\<rparr>)"
      by simp
  qed
  show "\<exists>tasks. getOrderedTasks tc = Inr tasks \<and> length tasks = length tc \<and>
               Task_name ` set tasks = registered tc \<and>
               (\<forall>t \<in> set tasks.
                  map_of tc (Task_name t) = Some (t\<lparr>criticalPathLength := None\<rparr>))"
    using run len names same by blast
next
  show "getOrderedTasks (twoTaskCycle a b) =
           Inl (CyclicDependency [ProjectBuilder_name a, ProjectBuilder_name b, ProjectBuilder_name a])"
    using assms(2) by (rule twoTaskCycle_result)
next
  show "cyclicDependencyMessage [ProjectBuilder_name a, ProjectBuilder_name b, ProjectBuilder_name a] =
           ''A cyclic dependency was encountered:'' @ [CHR 0x0A] @ ''  '' @ ProjectBuilder_name a
             @ [CHR 0x0A] @ ''  -> '' @ ProjectBuilder_name b
             @ [CHR 0x0A] @ ''  -> '' @ ProjectBuilder_name a @ [CHR 0x0A]
             @ ''Consider using the cyclicDependencyProjects option for rush.json.''"
    by (simp add: cyclicDependencyMessage_def)
qed

theorem getOrderedTasks_cycle_detection_witness:
  "wellFormed (twoTaskCycle (exampleBuilder ''A'') (exampleBuilder ''B'')) \<and>
   cyclic (twoTaskCycle (exampleBuilder ''A'') (exampleBuilder ''B'')) \<and>
   (\<exists>chain. getOrderedTasks (twoTaskCycle (exampleBuilder ''A'') (exampleBuilder ''B''))
              = Inl (CyclicDependency chain) \<and>
            namesCycle (twoTaskCycle (exampleBuilder ''A'') (exampleBuilder ''B'')) chain \<and>
            chain = [''A'', ''B'', ''A'']) \<and>
   wellFormed (linearChain (exampleBuilder ''A'') (exampleBuilder ''B'') (exampleBuilder ''C'')) \<and>
   \<not> cyclic (linearChain (exampleBuilder ''A'') (exampleBuilder ''B'') (exampleBuilder ''C'')) \<and>
   (\<exists>tasks. getOrderedTasks (linearChain (exampleBuilder ''A'') (exampleBuilder ''B'')
                (exampleBuilder ''C'')) = Inr tasks \<and> map Task_name tasks = [''A'', ''B'', ''C''])"
proof -
  let ?a = "exampleBuilder ''A''" and ?b = "exampleBuilder ''B''" and ?c = "exampleBuilder ''C''"
  have ne: "ProjectBuilder_name ?a \<noteq> ProjectBuilder_name ?b"
    by (simp add: example_simps)
  have d: "distinct [ProjectBuilder_name ?a, ProjectBuilder_name ?b, ProjectBuilder_name ?c]"
    by (simp add: example_simps)
  note cyc = getOrderedTasks_cycle_detection [OF wellFormed_twoTaskCycle ne]
  note lin = getOrderedTasks_cycle_detection [OF wellFormed_linearChain ne]
  from linearChain_result [OF d] obtain tasks where
    t: "getOrderedTasks (linearChain ?a ?b ?c) = Inr tasks"
       "map (\<lambda>t. (Task_name t, criticalPathLength t)) tasks =
          [(ProjectBuilder_name ?a, Some (2::nat)), (ProjectBuilder_name ?b, Some 1),
           (ProjectBuilder_name ?c, Some 0)]" by iprover
  have names: "map Task_name tasks = [''A'', ''B'', ''C'']"
    using arg_cong [OF t(2), of "map fst"]
    by (simp add: exampleBuilder_def ProjectBuilder_name_def getTaskName_def comp_def)
  have "cyclic (twoTaskCycle ?a ?b)" using cyc by auto
  moreover have "\<not> cyclic (linearChain ?a ?b ?c)" using lin t(1) by auto
  moreover have "\<exists>chain. getOrderedTasks (twoTaskCycle ?a ?b) = Inl (CyclicDependency chain) \<and>
            namesCycle (twoTaskCycle ?a ?b) chain \<and> chain = [''A'', ''B'', ''A'']"
    using cyc calculation(1) by (auto simp: example_simps)
  ultimately show ?thesis
    using wellFormed_twoTaskCycle wellFormed_linearChain t(1) names by iprover
qed

lemma list_all2_setD1: "list_all2 P xs ys \<Longrightarrow> x \<in> set xs \<Longrightarrow> \<exists>y\<in>set ys. P x y"
  by (induction rule: list_all2_induct) auto

lemma list_all2_setD2: "list_all2 P xs ys \<Longrightarrow> y \<in> set ys \<Longrightarrow> \<exists>x\<in>set xs. P x y"
  by (induction rule: list_all2_induct) auto

lemma Math_max_Max: "ls \<noteq> [] \<Longrightarrow> Math_max ls = Max (set ls)"
proof (induction ls)
  case Nil
  then show ?case by simp
next
  case (Cons x xs)
  then show ?case by (cases "xs = []") (simp_all add: Math_max_def max.commute)
qed

text \<open>
  Claim C2. After \<open>getOrderedTasks\<close> has succeeded, the length of every returned task
  is 0 when the task has no dependents, and otherwise 1 plus the greatest length among
  its dependents. In the chain where \<open>b\<close> depends on \<open>a\<close> and \<open>c\<close> on \<open>b\<close>, the
  lengths are 2 for \<open>a\<close>, 1 for \<open>b\<close> and 0 for \<open>c\<close>.
\<close>

theorem criticalPathLength_recursive:
  assumes "wellFormed tc" and "getOrderedTasks tc = Inr tasks"
    and "distinct [ProjectBuilder_name a, ProjectBuilder_name b, ProjectBuilder_name c]"
  shows "(\<forall>t \<in> set tasks.
            criticalPathLength t =
              Some (if dependents t = [] then 0
                    else 1 + Max {l. \<exists>u \<in> set tasks. Task_name u \<in> set (dependents t) \<and>
                                     criticalPathLength u = Some l})) \<and>
         (\<exists>chainTasks. getOrderedTasks (linearChain a b c) = Inr chainTasks \<and>
            map (\<lambda>t. (Task_name t, criticalPathLength t)) chainTasks =
              [(ProjectBuilder_name a, Some 2), (ProjectBuilder_name b, Some 1),
               (ProjectBuilder_name c, Some 0)])"
proof (intro conjI ballI)
  fix t assume t: "t \<in> set tasks"
  from getOrderedTasks_Inr [OF assms(1,2)] obtain tc' where
    tasks: "tasks = sortBy negatedLength (map snd tc')" and e: "erase tc' = tc"
    and ok: "memoOK tc'" and all: "\<forall>n \<in> registered tc. lengthOf tc' n \<noteq> None" by blast
  note f = computed_facts [OF assms(1) e]
  have settasks: "set tasks = snd ` set tc'" using tasks by simp
  then obtain k where kt: "(k, t) \<in> set tc'" using t by auto
  from f(3) [OF kt] have name: "Task_name t = k" and look: "map_of tc' k = Some t" by simp_all
  have "k \<in> set (map fst tc')" using kt by force
  then have "k \<in> registered tc" unfolding f(2) by (simp add: registered_def)
  with all obtain l where l: "lengthOf tc' k = Some l" by auto
  then have cpl: "criticalPathLength t = Some l" using look by (simp add: lengthOf_def)
  have deps: "dependentsOf tc' k = dependents t" using look by (simp add: dependentsOf_def)
  from ok l obtain ls where
    ls: "list_all2 (\<lambda>d x. lengthOf tc' d = Some x) (dependents t) ls" and
    lv: "l = (if dependents t = [] then 0 else Math_max ls + 1)"
    unfolding memoOK_def deps [symmetric] by blast
  have lenOf: "lengthOf tc' d = Some x \<longleftrightarrow>
                (\<exists>u \<in> set tasks. Task_name u = d \<and> criticalPathLength u = Some x)" for d x
  proof
    assume a: "lengthOf tc' d = Some x"
    then obtain u where u: "map_of tc' d = Some u" "criticalPathLength u = Some x"
      by (cases "map_of tc' d") (auto simp: lengthOf_def)
    then have m: "(d, u) \<in> set tc'" by (simp add: map_of_SomeD)
    then have "u \<in> set tasks" unfolding settasks by (rule image_eqI [rotated]) simp
    moreover have "Task_name u = d" using f(3) [OF m] by simp
    ultimately show "\<exists>u \<in> set tasks. Task_name u = d \<and> criticalPathLength u = Some x"
      using u(2) by blast
  next
    assume "\<exists>u \<in> set tasks. Task_name u = d \<and> criticalPathLength u = Some x"
    then obtain u j where u: "(j, u) \<in> set tc'" "Task_name u = d" "criticalPathLength u = Some x"
      using settasks by auto
    with f(3) [OF u(1)] show "lengthOf tc' d = Some x" by (simp add: lengthOf_def)
  qed
  have setls: "set ls = {x. \<exists>u \<in> set tasks. Task_name u \<in> set (dependents t) \<and>
                                     criticalPathLength u = Some x}"
  proof (intro set_eqI iffI)
    fix x assume "x \<in> set ls"
    then obtain d where "d \<in> set (dependents t)" "lengthOf tc' d = Some x"
      using list_all2_setD2 [OF ls] by blast
    then show "x \<in> {x. \<exists>u \<in> set tasks. Task_name u \<in> set (dependents t) \<and>
                                     criticalPathLength u = Some x}"
      using lenOf by auto
  next
    fix x assume "x \<in> {x. \<exists>u \<in> set tasks. Task_name u \<in> set (dependents t) \<and>
                                     criticalPathLength u = Some x}"
    then obtain u where u: "u \<in> set tasks" "Task_name u \<in> set (dependents t)"
      "criticalPathLength u = Some x" by blast
    then have a: "lengthOf tc' (Task_name u) = Some x" using lenOf by blast
    from list_all2_setD1 [OF ls u(2)] obtain y where
      "y \<in> set ls" "lengthOf tc' (Task_name u) = Some y" by blast
    with a show "x \<in> set ls" by simp
  qed
  have "ls \<noteq> []" if "dependents t \<noteq> []" using that ls by auto
  then show "criticalPathLength t =
              Some (if dependents t = [] then 0
                    else 1 + Max {l. \<exists>u \<in> set tasks. Task_name u \<in> set (dependents t) \<and>
                                     criticalPathLength u = Some l})"
    using cpl lv setls Math_max_Max [of ls] by auto
next
  show "\<exists>chainTasks. getOrderedTasks (linearChain a b c) = Inr chainTasks \<and>
            map (\<lambda>t. (Task_name t, criticalPathLength t)) chainTasks =
              [(ProjectBuilder_name a, Some 2), (ProjectBuilder_name b, Some 1),
               (ProjectBuilder_name c, Some 0)]"
    using assms(3) by (rule linearChain_result)
qed

theorem criticalPathLength_recursive_witness:
  "\<exists>tasks. wellFormed (linearChain (exampleBuilder ''A'') (exampleBuilder ''B'') (exampleBuilder ''C'')) \<and>
      getOrderedTasks (linearChain (exampleBuilder ''A'') (exampleBuilder ''B'') (exampleBuilder ''C''))
        = Inr tasks \<and>
      map (\<lambda>t. (Task_name t, criticalPathLength t)) tasks
        = [(''A'', Some (2::nat)), (''B'', Some 1), (''C'', Some 0)] \<and>
      (\<forall>t \<in> set tasks.
            criticalPathLength t =
              Some (if dependents t = [] then 0
                    else 1 + Max {l. \<exists>u \<in> set tasks. Task_name u \<in> set (dependents t) \<and>
                                     criticalPathLength u = Some l}))"
proof -
  let ?a = "exampleBuilder ''A''" and ?b = "exampleBuilder ''B''" and ?c = "exampleBuilder ''C''"
  have d: "distinct [ProjectBuilder_name ?a, ProjectBuilder_name ?b, ProjectBuilder_name ?c]"
    by (simp add: example_simps)
  from linearChain_result [OF d] obtain tasks where
    t: "getOrderedTasks (linearChain ?a ?b ?c) = Inr tasks"
       "map (\<lambda>t. (Task_name t, criticalPathLength t)) tasks =
          [(ProjectBuilder_name ?a, Some (2::nat)), (ProjectBuilder_name ?b, Some 1),
           (ProjectBuilder_name ?c, Some 0)]" by iprover
  from criticalPathLength_recursive [OF wellFormed_linearChain t(1) d] t wellFormed_linearChain
  show ?thesis by (auto simp: example_simps)
qed

text \<open>
  Claim C3, as amended. The list returned by \<open>getOrderedTasks\<close> is sorted by
  descending critical-path length, and the tasks of one length stand in the order in
  which they were registered: the sort key is the length alone, and names play no part.
\<close>

theorem getOrderedTasks_sorted_stable:
  assumes "wellFormed tc" and "getOrderedTasks tc = Inr tasks"
  shows "sorted_wrt (\<lambda>t u. \<exists>x y. criticalPathLength t = Some x \<and> criticalPathLength u = Some y
                              \<and> y \<le> x) tasks \<and>
         (\<forall>l. subseq (map Task_name (filter (\<lambda>t. criticalPathLength t = Some l) tasks))
                   (map fst tc))"
proof
  from getOrderedTasks_Inr [OF assms] obtain tc' where
    tasks: "tasks = sortBy negatedLength (map snd tc')" and e: "erase tc' = tc"
    and all: "\<forall>n \<in> registered tc. lengthOf tc' n \<noteq> None" by blast
  note f = computed_facts [OF assms(1) e]
  have defined: "\<exists>x. criticalPathLength t = Some x" if "t \<in> set (map snd tc')" for t
  proof -
    from that obtain k where kt: "(k, t) \<in> set tc'" by auto
    have "k \<in> set (map fst tc')" using kt by force
    then have "k \<in> registered tc" unfolding f(2) by (simp add: registered_def)
    with all f(3) [OF kt] show ?thesis by (auto simp: lengthOf_def)
  qed
  have "sorted (map negatedLength tasks)" unfolding tasks sortBy_def by (rule sorted_sort_key)
  then have "sorted_wrt (\<lambda>t u. negatedLength t \<le> negatedLength u) tasks"
    by (simp add: sorted_map)
  then show "sorted_wrt (\<lambda>t u. \<exists>x y. criticalPathLength t = Some x \<and> criticalPathLength u = Some y
                              \<and> y \<le> x) tasks"
  proof (rule sorted_wrt_mono_rel [rotated])
    fix t u assume "t \<in> set tasks" "u \<in> set tasks" "negatedLength t \<le> negatedLength u"
    moreover from this obtain x y where "criticalPathLength t = Some x" "criticalPathLength u = Some y"
      using defined unfolding tasks by (metis set_sortBy(1))
    ultimately show "\<exists>x y. criticalPathLength t = Some x \<and> criticalPathLength u = Some y \<and> y \<le> x"
      by (simp add: negatedLength_def)
  qed
  show "\<forall>l. subseq (map Task_name (filter (\<lambda>t. criticalPathLength t = Some l) tasks)) (map fst tc)"
  proof
    fix l
    have key: "criticalPathLength t = Some l \<longleftrightarrow> negatedLength t = - int l"
      if "t \<in> set (map snd tc')" for t
      using defined [OF that] by (auto simp: negatedLength_def)
    have "filter (\<lambda>t. criticalPathLength t = Some l) tasks
            = filter (\<lambda>t. negatedLength t = - int l) tasks"
      by (rule filter_cong) (use key tasks in auto)
    also have "\<dots> = filter (\<lambda>t. negatedLength t = - int l) (map snd tc')"
      unfolding tasks sortBy_def by (rule sort_key_stable)
    finally have "subseq (filter (\<lambda>t. criticalPathLength t = Some l) tasks) (map snd tc')"
      by simp
    then have "subseq (map Task_name (filter (\<lambda>t. criticalPathLength t = Some l) tasks))
                 (map Task_name (map snd tc'))"
      by (rule subseq_map)
    moreover have "map Task_name (map snd tc') = map fst tc'"
    proof -
      have "Task_name (snd p) = fst p" if "p \<in> set tc'" for p
        using f(3) [of "fst p" "snd p"] that by simp
      then have "map (\<lambda>p. Task_name (snd p)) tc' = map fst tc'" by (intro map_cong) simp_all
      then show ?thesis by (simp add: comp_def)
    qed
    ultimately show "subseq (map Task_name (filter (\<lambda>t. criticalPathLength t = Some l) tasks))
                       (map fst tc)"
      using f(2) by simp
  qed
qed

theorem getOrderedTasks_sorted_stable_witness:
  "\<exists>tasks. wellFormed tiedTasks \<and> getOrderedTasks tiedTasks = Inr tasks \<and>
      map Task_name tasks = [''b'', ''a''] \<and>
      sorted_wrt (\<lambda>t u. \<exists>x y. criticalPathLength t = Some x \<and> criticalPathLength u = Some y
                              \<and> y \<le> x) tasks \<and>
      (\<forall>l. subseq (map Task_name (filter (\<lambda>t. criticalPathLength t = Some l) tasks))
                (map fst tiedTasks))"
proof -
  obtain t u where r: "getOrderedTasks tiedTasks = Inr [t, u]" "Task_name t = ''b''" "Task_name u = ''a''"
    using tie_break_helper by iprover
  from getOrderedTasks_sorted_stable [OF wellFormed_tiedTasks r(1)] r wellFormed_tiedTasks
  show ?thesis by auto
qed

text \<open>
  Claim C3 as stated fails: with \<open>b\<close> registered before \<open>a\<close> and no dependencies,
  both lengths are 0 and \<open>b\<close> is returned first, although \<open>a\<close> is the smaller name.
\<close>

theorem tie_break_by_name_counterexample:
  "wellFormed tiedTasks \<and>
   (\<exists>t u. getOrderedTasks tiedTasks = Inr [t, u] \<and>
          criticalPathLength t = Some 0 \<and> criticalPathLength u = Some 0 \<and>
          Task_name t = ''b'' \<and> Task_name u = ''a'' \<and> Task_name u < Task_name t)"
  by (simp add: tiedTasks_def build_simps exampleBuilder_def ProjectBuilder_name_def getTaskName_def
       wellFormed_def getOrderedTasks_def sortBy_def negatedLength_def)

text \<open>
  Claim C10. \<open>addDependencies\<close> is not atomic on failure: when a name of the list is
  not registered, the call throws for that name, and every name before it in the list
  has been linked by then (it is among the task's dependencies, and the task is among
  its dependents) in the collection the call leaves behind. \<open>addTask\<close> leaves the
  collection as it was when it throws on a name that is registered already.
\<close>

theorem addDependencies_not_atomic:
  assumes "hasTask tc taskName" "\<forall>p\<in>set pre. hasTask tc p" "\<not> hasTask tc d"
  shows "(\<exists>tc'. addDependencies taskName (Some (pre @ d # post)) tc
                  = (Some (ProjectNotRegistered d), tc') \<and>
           (\<forall>p\<in>set pre. \<exists>t dep. map_of tc' taskName = Some t \<and> p \<in> set (dependencies t) \<and>
               map_of tc' p = Some dep \<and> taskName \<in> set (dependents dep))) \<and>
         (hasTask tc (ProjectBuilder_name b) \<longrightarrow> addTask b tc = (Some TaskAlreadyRegistered, tc))"
proof -
  obtain t where "map_of tc taskName = Some t" using assms(1) by (auto simp: hasTask_def)
  then have "addDependencies taskName (Some (pre @ d # post)) tc
               = linkDependencies taskName (pre @ d # post) tc"
    by (simp add: addDependencies_def)
  with linkDependencies_partial [OF assms] show ?thesis
    by (simp add: addTask_def)
qed

theorem addDependencies_not_atomic_witness:
  "hasTask tiedTasks ''a'' \<and> hasTask tiedTasks ''b'' \<and> \<not> hasTask tiedTasks ''x'' \<and>
   (\<exists>tc'. addDependencies ''a'' (Some [''b'', ''x'', ''b'']) tiedTasks
             = (Some (ProjectNotRegistered ''x''), tc') \<and>
          (\<exists>t dep. map_of tc' ''a'' = Some t \<and> ''b'' \<in> set (dependencies t) \<and>
               map_of tc' ''b'' = Some dep \<and> ''a'' \<in> set (dependents dep)) \<and> tc' \<noteq> tiedTasks) \<and>
   addTask (exampleBuilder ''a'') tiedTasks = (Some TaskAlreadyRegistered, tiedTasks)"
proof -
  have h: "hasTask tiedTasks ''a''" "\<forall>p\<in>set [''b'']. hasTask tiedTasks p" "\<not> hasTask tiedTasks ''x''"
    by (simp_all add: tiedTasks_def example_simps)
  have b: "hasTask tiedTasks (ProjectBuilder_name (exampleBuilder ''a''))"
    by (simp add: tiedTasks_def example_simps)
  have ne: "addDependencies ''a'' (Some [''b'', ''x'', ''b'']) tiedTasks
             \<noteq> (Some (ProjectNotRegistered ''x''), tiedTasks)"
    by (simp add: tiedTasks_def example_simps)
  from addDependencies_not_atomic [OF h, of "[''b'']" "exampleBuilder ''a''"] h b ne
  show ?thesis by auto
qed

section \<open>Proofs: project builder\<close>

text \<open>
  What \<open>_areShallowEqual\<close> decides: every own key of the first object has the same own
  value in the second, and every own key of the second is an own key of the first or the
  name of a member of \<open>Object.prototype\<close>.
\<close>

lemma own_key_iff: "map_of object n \<noteq> None \<longleftrightarrow> n \<in> fst ` set object"
  by (simp add: map_of_eq_None_iff)

lemma areShallowEqual_iff:
  "areShallowEqual object1 object2 \<longleftrightarrow>
     (\<forall>n \<in> fst ` set object1. map_of object2 n = map_of object1 n) \<and>
     (\<forall>n \<in> fst ` set object2. n \<in> fst ` set object1 \<or> n \<in> set objectPrototypeMembers)"
proof -
  have first: "hasProperty n object2 \<and> getProperty object1 n = getProperty object2 n
                 \<longleftrightarrow> map_of object2 n = map_of object1 n"
    if "n \<in> fst ` set object1" for n
  proof -
    from that obtain v where "map_of object1 n = Some v"
      using own_key_iff [of object1 n] by (cases "map_of object1 n") auto
    then show ?thesis
      by (auto simp: hasProperty_def getProperty_def split: option.splits if_splits)
  qed
  have second: "hasProperty n object1 \<longleftrightarrow> n \<in> fst ` set object1 \<or> n \<in> set objectPrototypeMembers"
    for n
    unfolding hasProperty_def own_key_iff by (rule refl)
  have "areShallowEqual object1 object2 \<longleftrightarrow>
     (\<forall>n \<in> fst ` set object1. hasProperty n object2 \<and>
                                   getProperty object1 n = getProperty object2 n) \<and>
     (\<forall>n \<in> fst ` set object2. hasProperty n object1)"
    by (simp add: areShallowEqual_def list_all_iff)
  then show ?thesis using first second by simp
qed

lemma areShallowEqual_own_keys:
  assumes "fst ` set object2 \<inter> set objectPrototypeMembers = {}"
  shows "areShallowEqual object1 object2 \<longleftrightarrow> map_of object1 = map_of object2"
proof
  assume eq: "areShallowEqual object1 object2"
  show "map_of object1 = map_of object2"
  proof
    fix n
    show "map_of object1 n = map_of object2 n"
    proof (cases "n \<in> fst ` set object1")
      case True
      from eq have "\<forall>n \<in> fst ` set object1. map_of object2 n = map_of object1 n"
        unfolding areShallowEqual_iff by (rule conjunct1)
      then have "map_of object2 n = map_of object1 n" using True by (rule bspec)
      then show ?thesis by (rule sym)
    next
      case False
      then have none: "map_of object1 n = None" using own_key_iff [of object1 n] by simp
      have "n \<notin> fst ` set object2"
      proof
        assume k: "n \<in> fst ` set object2"
        from eq have "\<forall>n \<in> fst ` set object2.
                        n \<in> fst ` set object1 \<or> n \<in> set objectPrototypeMembers"
          unfolding areShallowEqual_iff by (rule conjunct2)
        then have "n \<in> fst ` set object1 \<or> n \<in> set objectPrototypeMembers"
          using k by (rule bspec)
        with False k assms show False by blast
      qed
      then have "map_of object2 n = None" using own_key_iff [of object2 n] by simp
      with none show ?thesis by simp
    qed
  qed
next
  assume eq: "map_of object1 = map_of object2"
  have "fst ` set object1 = fst ` set object2"
    using own_key_iff [of object1] own_key_iff [of object2] unfolding eq by blast
  then show "areShallowEqual object1 object2"
    unfolding areShallowEqual_iff using eq by simp
qed

text \<open>The \<open>files\<close> object holds the entries of the map, but for a path \<open>__proto__\<close>.\<close>

lemma map_of_fold_setProperty:
  "map_of (fold (\<lambda>(filePath, fileHash) files. setProperty filePath fileHash files) fileHashes acc) n
     = (if n = ''__proto__'' then map_of acc n else (map_of acc ++ map_of (rev fileHashes)) n)"
proof (induction fileHashes arbitrary: acc)
  case Nil
  show ?case by simp
next
  case (Cons x xs)
  obtain k v where x: "x = (k, v)" by (cases x)
  show ?case
  proof (cases "k = ''__proto__''")
    case True
    then show ?thesis using Cons [of acc] x
      by (simp add: setProperty_def map_add_def split: option.splits)
  next
    case False
    then show ?thesis using Cons [of "AList.update k v acc"] x
      by (simp add: setProperty_def update_conv' map_add_def split: option.splits)
  qed
qed

lemma map_of_rev_distinct: "distinct (map fst xs) \<Longrightarrow> map_of (rev xs) = map_of xs"
proof (induction xs)
  case Nil
  show ?case by simp
next
  case (Cons x xs)
  obtain k v where x: "x = (k, v)" by (cases x)
  have "map_of xs k = None" using Cons.prems x by (simp add: map_of_eq_None_iff)
  then have "map_of [x] ++ map_of xs = (map_of xs)(k \<mapsto> v)"
    using x by (auto simp: map_add_def fun_eq_iff split: option.splits)
  then show ?case using Cons x by simp
qed

lemma map_of_filesOf:
  assumes "distinct (map fst fileHashes)" "''__proto__'' \<notin> fst ` set fileHashes"
  shows "map_of (filesOf fileHashes) = map_of fileHashes"
proof
  fix n
  have "map_of fileHashes ''__proto__'' = None"
    using assms(2) own_key_iff [of fileHashes "''__proto__''"] by simp
  then show "map_of (filesOf fileHashes) n = map_of fileHashes n"
    unfolding filesOf_def map_of_fold_setProperty map_of_rev_distinct [OF assms(1)] by simp
qed

lemma getProjectBuildCacheAsync_hadEmptyScript [simp]:
  "getProjectBuildCacheAsync (b\<lparr>hadEmptyScript := x\<rparr>) env tf
     = (getProjectBuildCacheAsync b env tf)\<lparr>hadEmptyScript := x\<rparr>"
  by (simp add: getProjectBuildCacheAsync_def)

lemma getProjectBuildCacheAsync_idem [simp]:
  "getProjectBuildCacheAsync (getProjectBuildCacheAsync b env tf) env tf
     = getProjectBuildCacheAsync b env tf"
  by (simp add: getProjectBuildCacheAsync_def)

lemma getProjectBuildCacheAsync_fields [simp]:
  "commandToRun (getProjectBuildCacheAsync b env tf) = commandToRun b"
  "isIncrementalBuildAllowed (getProjectBuildCacheAsync b env tf) = isIncrementalBuildAllowed b"
  by (simp_all add: getProjectBuildCacheAsync_def)

lemma local_hadEmptyScript [simp]:
  "restoreFromCacheSuccess (b\<lparr>hadEmptyScript := x\<rparr>) env = restoreFromCacheSuccess b env"
  "projectBuildDeps (b\<lparr>hadEmptyScript := x\<rparr>) env = projectBuildDeps b env"
  by (simp_all add: restoreFromCacheSuccess_def projectBuildDeps_def)

lemma isPackageUnchanged_hadEmptyScript [simp]:
  "isPackageUnchanged (b\<lparr>hadEmptyScript := x\<rparr>) env = isPackageUnchanged b env"
  by (simp add: isPackageUnchanged_def cong: option.case_cong)

lemma projectBuildDeps_cache [simp]:
  "projectBuildDeps (getProjectBuildCacheAsync b env tf) env = projectBuildDeps b env"
  by (simp add: projectBuildDeps_def)

lemma tryWriteCacheEntryAsync_hadEmptyScript [simp]:
  "fst (tryWriteCacheEntryAsync (b\<lparr>hadEmptyScript := x\<rparr>) env tf) = fst (tryWriteCacheEntryAsync b env tf)"
  "projectBuildCache (snd (tryWriteCacheEntryAsync (b\<lparr>hadEmptyScript := x\<rparr>) env tf))
     = projectBuildCache (snd (tryWriteCacheEntryAsync b env tf))"
  by (simp_all add: tryWriteCacheEntryAsync_def Let_def)

lemma tryWriteCacheEntryAsync_cache [simp]:
  "tryWriteCacheEntryAsync (getProjectBuildCacheAsync b env tf) env tf
     = (fst (tryWriteCacheEntryAsync b env tf), getProjectBuildCacheAsync b env tf)"
  by (simp add: tryWriteCacheEntryAsync_def Let_def)

text \<open>The status and the effects of the three ways an execution can go before a command runs.\<close>

lemma executeTaskAsync_cases:
  "outcome (executeTaskAsync b env) =
     (if restoreFromCacheSuccess b env = Some True then Inr FromCache
      else if isPackageUnchanged b env \<and> isIncrementalBuildAllowed b then Inr Skipped
      else if commandToRun b = [] then Inr Success
      else outcome (runCommand (getProjectBuildCacheAsync b env (trackedFiles env)) env
             ((if projectBuildCache (getProjectBuildCacheAsync b env (trackedFiles env)) \<noteq> None
               then [TryRestoreFromCache] else [])
              @ [DeleteFile CurrentDepsPath, DeleteFile LegacyDepsPath])))"
  by (simp add: executeTaskAsync_def Let_def)

lemma executeAsync_outcome:
  "outcome (executeAsync b env) =
     (case outcome (executeTaskAsync (if commandToRun b = [] then b\<lparr>hadEmptyScript := True\<rparr> else b) env) of
        Inl e \<Rightarrow> Inl (TaskError ''executing'' (errorMessage e))
      | Inr s \<Rightarrow> Inr s)"
  by (simp add: executeAsync_def Let_def split: sum.splits)

lemma executeAsync_effects:
  "effects (executeAsync b env)
     = effects (executeTaskAsync (if commandToRun b = [] then b\<lparr>hadEmptyScript := True\<rparr> else b) env)"
  by (simp add: executeAsync_def Let_def split: sum.splits)

lemma runCommand_outcome:
  "outcome (runCommand b env before) =
     (if exitCode env \<noteq> 0 then Inl (TaskError ''error'' (ReturnedErrorCode (exitCode env)))
      else if projectLogWritableIsOpen env then Inl (InternalError OutputFileHandleNotClosed)
      else if hasWarningOrError env then Inr SuccessWithWarning
      else if projectBuildDeps b env = None then Inr Success
      else if terminalHasErrors env then Inr Failure
      else if fst (tryWriteCacheEntryAsync b env (trackedFiles env)) = Some False
              \<or> terminalHasWarnings env then Inr SuccessWithWarning
      else Inr Success)"
  by (auto simp: runCommand_def closePipeline_def Let_def split: option.splits prod.splits)

text \<open>When an execution is skipped, and what an unchanged package is.\<close>

lemma executeAsync_skipped:
  "outcome (executeAsync b env) = Inr Skipped \<longleftrightarrow>
     restoreFromCacheSuccess b env \<noteq> Some True \<and> isPackageUnchanged b env \<and>
     isIncrementalBuildAllowed b"
proof -
  have run: "outcome (runCommand c env before) \<noteq> Inr Skipped" for c before
    by (simp add: runCommand_outcome)
  show ?thesis
    by (auto simp: executeAsync_outcome executeTaskAsync_cases run split: sum.splits)
qed

lemma isPackageUnchanged_iff:
  "isPackageUnchanged b env \<longleftrightarrow>
     (\<exists>previous fileHashes.
         lastProjectBuildDeps env = Some previous \<and> packageDeps env = Some fileHashes \<and>
         arguments previous = commandToRun b \<and>
         areShallowEqual (filesOf fileHashes) (files previous))"
  by (auto simp: isPackageUnchanged_def projectBuildDeps_def split: option.splits)

text \<open>
  Where the hashes come from a map (no path twice) without the path \<open>__proto__\<close>, and no
  key of the prior state is the name of a member of \<open>Object.prototype\<close>, an execution is
  skipped if and only if no cache restore succeeded, a prior state was loaded, its
  arguments are the current command string, its files are the current file hashes (the
  same keys with the same values), and incremental builds are allowed.
\<close>

lemma skipped_iff_own_keys:
  assumes "\<forall>fileHashes. packageDeps env = Some fileHashes \<longrightarrow>
             distinct (map fst fileHashes) \<and> ''__proto__'' \<notin> fst ` set fileHashes"
    and "\<forall>previous. lastProjectBuildDeps env = Some previous \<longrightarrow>
             fst ` set (files previous) \<inter> set objectPrototypeMembers = {}"
  shows "outcome (executeAsync b env) = Inr Skipped \<longleftrightarrow>
     restoreFromCacheSuccess b env \<noteq> Some True \<and>
     (\<exists>previous fileHashes.
         lastProjectBuildDeps env = Some previous \<and> packageDeps env = Some fileHashes \<and>
         arguments previous = commandToRun b \<and>
         map_of (files previous) = map_of fileHashes) \<and>
     isIncrementalBuildAllowed b"
proof -
  have "areShallowEqual (filesOf fileHashes) (files previous)
          \<longleftrightarrow> map_of (files previous) = map_of fileHashes"
    if "lastProjectBuildDeps env = Some previous" "packageDeps env = Some fileHashes"
    for previous fileHashes
  proof -
    have "map_of (filesOf fileHashes) = map_of fileHashes"
      using assms(1) that(2) by (simp add: map_of_filesOf)
    moreover have "fst ` set (files previous) \<inter> set objectPrototypeMembers = {}"
      using assms(2) that(1) by simp
    ultimately show ?thesis by (auto simp: areShallowEqual_own_keys)
  qed
  then have "isPackageUnchanged b env \<longleftrightarrow>
     (\<exists>previous fileHashes.
         lastProjectBuildDeps env = Some previous \<and> packageDeps env = Some fileHashes \<and>
         arguments previous = commandToRun b \<and>
         map_of (files previous) = map_of fileHashes)"
    unfolding isPackageUnchanged_iff by blast
  then show ?thesis unfolding executeAsync_skipped by simp
qed

lemma runCommand_effects:
  "effects (runCommand b env before) =
     before @ [ExecuteLifecycleCommand (commandToRun b)]
       @ map (\<lambda>(kind, chunk). WriteChunk kind chunk) (chunks env)
       @ (if exitCode env = 0 \<and> \<not> hasWarningOrError env
          then (case projectBuildDeps b env of
                  None \<Rightarrow> []
                | Some deps \<Rightarrow>
                    SaveJsonFile deps CurrentDepsPath #
                    (if projectBuildCache (getProjectBuildCacheAsync b env (trackedFiles env)) \<noteq> None
                     then [TrySetCacheEntry] else []))
          else [])"
  by (auto simp: runCommand_def closePipeline_def tryWriteCacheEntryAsync_def Let_def
        split: option.splits prod.splits)

lemma executeTaskAsync_effects:
  "effects (executeTaskAsync b env) =
     (if projectBuildCache (getProjectBuildCacheAsync b env (trackedFiles env)) \<noteq> None
      then [TryRestoreFromCache] else []) @
     (if restoreFromCacheSuccess b env = Some True then []
      else if isPackageUnchanged b env \<and> isIncrementalBuildAllowed b then []
      else [DeleteFile CurrentDepsPath, DeleteFile LegacyDepsPath] @
        (if commandToRun b = []
         then (case projectBuildDeps b env of
                 None \<Rightarrow> [] | Some deps \<Rightarrow> [SaveJsonFile deps CurrentDepsPath])
         else [ExecuteLifecycleCommand (commandToRun b)]
           @ map (\<lambda>(kind, chunk). WriteChunk kind chunk) (chunks env)
           @ (if exitCode env = 0 \<and> \<not> hasWarningOrError env
              then (case projectBuildDeps b env of
                      None \<Rightarrow> []
                    | Some deps \<Rightarrow>
                        SaveJsonFile deps CurrentDepsPath #
                        (if projectBuildCache (getProjectBuildCacheAsync b env (trackedFiles env)) \<noteq> None
                         then [TrySetCacheEntry] else []))
              else [])))"
  by (auto simp: executeTaskAsync_def Let_def runCommand_effects split: option.splits)

text \<open>
  Claim C5, as amended. When the cache restore succeeds, the task ends with the status
  FromCache. The restore attempt is all the builder does then: it neither writes nor
  deletes the state file.
\<close>

theorem fromCache_leaves_state_file:
  assumes "restoreFromCacheSuccess b env = Some True"
  shows "outcome (executeAsync b env) = Inr FromCache \<and>
         effects (executeAsync b env) = [TryRestoreFromCache]"
proof -
  have "projectBuildCache (getProjectBuildCacheAsync b env (trackedFiles env)) \<noteq> None"
    using assms by (auto simp: restoreFromCacheSuccess_def)
  then show ?thesis
    using assms
    by (simp add: executeAsync_outcome executeAsync_effects executeTaskAsync_cases
          executeTaskAsync_effects)
qed

text \<open>
  Claim C5 as stated fails: with a build cache configured and a restore that succeeds,
  the execution ends FromCache and has written no state file.
\<close>

theorem fromCache_writes_state_counterexample:
  "buildCacheConfiguration ((exampleBuilder ''A'')\<lparr>buildCacheConfiguration := Some BuildCacheConfiguration\<rparr>)
     \<noteq> None \<and>
   restoreFromCacheSuccess
     ((exampleBuilder ''A'')\<lparr>buildCacheConfiguration := Some BuildCacheConfiguration\<rparr>)
     (exampleEnvironment\<lparr>projectConfigurationLoads := True, cacheEligible := True,
        restoreFromCacheResult := True\<rparr>) = Some True \<and>
   outcome (executeAsync
     ((exampleBuilder ''A'')\<lparr>buildCacheConfiguration := Some BuildCacheConfiguration\<rparr>)
     (exampleEnvironment\<lparr>projectConfigurationLoads := True, cacheEligible := True,
        restoreFromCacheResult := True\<rparr>)) = Inr FromCache \<and>
   effects (executeAsync
     ((exampleBuilder ''A'')\<lparr>buildCacheConfiguration := Some BuildCacheConfiguration\<rparr>)
     (exampleEnvironment\<lparr>projectConfigurationLoads := True, cacheEligible := True,
        restoreFromCacheResult := True\<rparr>)) = [TryRestoreFromCache]"
  by (simp add: executeAsync_def executeTaskAsync_def restoreFromCacheSuccess_def
        getProjectBuildCacheAsync_def tryGetProjectBuildCache_def trackedFiles_def
        exampleBuilder_def exampleEnvironment_def Let_def)

lemma executeTaskAsync_hadEmptyScript:
  "effects (executeTaskAsync (b\<lparr>hadEmptyScript := x\<rparr>) env) = effects (executeTaskAsync b env)"
  "outcome (executeTaskAsync (b\<lparr>hadEmptyScript := x\<rparr>) env) = outcome (executeTaskAsync b env)"
  unfolding executeTaskAsync_effects executeTaskAsync_cases runCommand_outcome by auto

lemma executeAsync_effects_plain: "effects (executeAsync b env) = effects (executeTaskAsync b env)"
  by (simp add: executeAsync_effects executeTaskAsync_hadEmptyScript)

lemma executeAsync_outcome_plain:
  "outcome (executeAsync b env) =
     (case outcome (executeTaskAsync b env) of
        Inl e \<Rightarrow> Inl (TaskError ''executing'' (errorMessage e))
      | Inr s \<Rightarrow> Inr s)"
  by (simp add: executeAsync_outcome executeTaskAsync_hadEmptyScript)

text \<open>
  Claim C6, as amended. When the command was spawned, the task ends with the status
  SuccessWithWarning exactly when the command exited with code zero, the log file was
  closed, and either a chunk was written to stderr, or the file hashes were computed, the
  terminal provider has recorded no error, and the cache write answered false or the
  terminal provider has recorded a warning. It never does on a non-zero exit code.
\<close>

theorem successWithWarning_iff:
  assumes "ExecuteLifecycleCommand (commandToRun b) \<in> set (effects (executeAsync b env))"
  shows "(outcome (executeAsync b env) = Inr SuccessWithWarning \<longleftrightarrow>
           exitCode env = 0 \<and> \<not> projectLogWritableIsOpen env \<and>
           (hasWarningOrError env \<or>
            projectBuildDeps b env \<noteq> None \<and> \<not> terminalHasErrors env \<and>
            (fst (tryWriteCacheEntryAsync b env (trackedFiles env)) = Some False \<or>
             terminalHasWarnings env))) \<and>
         (exitCode env \<noteq> 0 \<longrightarrow> outcome (executeAsync b env) \<noteq> Inr SuccessWithWarning)"
proof -
  note eff = assms [unfolded executeAsync_effects_plain executeTaskAsync_effects]
  have s1: "restoreFromCacheSuccess b env \<noteq> Some True"
  proof
    assume "restoreFromCacheSuccess b env = Some True"
    with eff show False by (simp split: if_splits)
  qed
  have s2: "\<not> (isPackageUnchanged b env \<and> isIncrementalBuildAllowed b)"
  proof
    assume "isPackageUnchanged b env \<and> isIncrementalBuildAllowed b"
    with eff show False by (simp split: if_splits)
  qed
  have s3: "commandToRun b \<noteq> []"
  proof
    assume "commandToRun b = []"
    with eff s1 s2 show False by (simp split: if_splits option.splits)
  qed
  note spawned = s1 s2 s3
  have "outcome (executeTaskAsync b env)
          = outcome (runCommand (getProjectBuildCacheAsync b env (trackedFiles env)) env
             ((if projectBuildCache (getProjectBuildCacheAsync b env (trackedFiles env)) \<noteq> None
               then [TryRestoreFromCache] else [])
              @ [DeleteFile CurrentDepsPath, DeleteFile LegacyDepsPath]))"
    using spawned by (auto simp: executeTaskAsync_cases)
  then show ?thesis
    by (auto simp: executeAsync_outcome_plain runCommand_outcome)
qed

lemmas builder_example_simps =
  executeAsync_def executeTaskAsync_def runCommand_def closePipeline_def
  restoreFromCacheSuccess_def tryWriteCacheEntryAsync_def getProjectBuildCacheAsync_def
  tryGetProjectBuildCache_def trackedFiles_def projectBuildDeps_def lastProjectBuildDeps_def
  isPackageUnchanged_def areShallowEqual_def hasProperty_def getProperty_def setProperty_def
  objectPrototypeMembers_def filesOf_def hasWarningOrError_def
  exampleBuilder_def exampleEnvironment_def Let_def

text \<open>
  Claim C6 as stated fails: the command exits with code zero, writes nothing to stderr,
  and no cache write fails (there is no cache), yet the terminal provider has recorded a
  warning and the task ends with SuccessWithWarning.
\<close>

theorem successWithWarning_counterexample:
  "outcome (executeAsync (exampleBuilder ''A'')
     (exampleEnvironment\<lparr>depsFileExists := True, terminalHasWarnings := True\<rparr>))
     = Inr SuccessWithWarning \<and>
   ExecuteLifecycleCommand ''echo hi'' \<in> set (effects (executeAsync (exampleBuilder ''A'')
     (exampleEnvironment\<lparr>depsFileExists := True, terminalHasWarnings := True\<rparr>))) \<and>
   exitCode (exampleEnvironment\<lparr>depsFileExists := True, terminalHasWarnings := True\<rparr>) = 0 \<and>
   \<not> hasWarningOrError (exampleEnvironment\<lparr>depsFileExists := True, terminalHasWarnings := True\<rparr>) \<and>
   fst (tryWriteCacheEntryAsync (exampleBuilder ''A'')
     (exampleEnvironment\<lparr>depsFileExists := True, terminalHasWarnings := True\<rparr>)
     (trackedFiles (exampleEnvironment\<lparr>depsFileExists := True, terminalHasWarnings := True\<rparr>)))
     = None"
  by (simp add: builder_example_simps)

theorem successWithWarning_iff_witness:
  "ExecuteLifecycleCommand ''echo hi'' \<in> set (effects (executeAsync (exampleBuilder ''A'')
     (exampleEnvironment\<lparr>chunks := [(Stdout, ''hi''), (Stderr, ''deprecated'')]\<rparr>))) \<and>
   outcome (executeAsync (exampleBuilder ''A'')
     (exampleEnvironment\<lparr>chunks := [(Stdout, ''hi''), (Stderr, ''deprecated'')]\<rparr>))
     = Inr SuccessWithWarning \<and>
   outcome (executeAsync (exampleBuilder ''A'') (exampleEnvironment\<lparr>exitCode := 1\<rparr>))
     \<noteq> Inr SuccessWithWarning"
proof -
  have c: "commandToRun (exampleBuilder ''A'') = ''echo hi''" by (simp add: exampleBuilder_def)
  have e1: "ExecuteLifecycleCommand (commandToRun (exampleBuilder ''A''))
      \<in> set (effects (executeAsync (exampleBuilder ''A'')
           (exampleEnvironment\<lparr>chunks := [(Stdout, ''hi''), (Stderr, ''deprecated'')]\<rparr>)))"
    by (simp add: builder_example_simps)
  have e2: "ExecuteLifecycleCommand (commandToRun (exampleBuilder ''A''))
      \<in> set (effects (executeAsync (exampleBuilder ''A'') (exampleEnvironment\<lparr>exitCode := 1\<rparr>)))"
    by (simp add: builder_example_simps)
  have w: "hasWarningOrError (exampleEnvironment\<lparr>chunks := [(Stdout, ''hi''), (Stderr, ''deprecated'')]\<rparr>)"
    "exitCode (exampleEnvironment\<lparr>chunks := [(Stdout, ''hi''), (Stderr, ''deprecated'')]\<rparr>) = 0"
    "\<not> projectLogWritableIsOpen (exampleEnvironment\<lparr>chunks := [(Stdout, ''hi''), (Stderr, ''deprecated'')]\<rparr>)"
    "exitCode (exampleEnvironment\<lparr>exitCode := 1\<rparr>) \<noteq> 0"
    by (simp_all add: hasWarningOrError_def exampleEnvironment_def)
  from successWithWarning_iff [OF e1] successWithWarning_iff [OF e2] w e1 c
  show ?thesis by simp
qed

text \<open>
  Claim C7, as amended. A project whose command string is empty spawns no child
  process. When no cache restore succeeds and the task is not skipped as unchanged, it
  ends with the status Success, and the build state is written to the state file when
  the file hashes were computed (nothing is written when they were not).
\<close>

theorem emptyScript_no_process:
  assumes "commandToRun b = []"
  shows "(\<forall>command. ExecuteLifecycleCommand command \<notin> set (effects (executeAsync b env))) \<and>
         (restoreFromCacheSuccess b env \<noteq> Some True \<longrightarrow>
          \<not> (isPackageUnchanged b env \<and> isIncrementalBuildAllowed b) \<longrightarrow>
            outcome (executeAsync b env) = Inr Success \<and>
            (case projectBuildDeps b env of
               Some deps \<Rightarrow> SaveJsonFile deps CurrentDepsPath \<in> set (effects (executeAsync b env))
             | None \<Rightarrow> \<forall>deps path. SaveJsonFile deps path \<notin> set (effects (executeAsync b env))))"
  using assms
  by (auto simp: executeAsync_effects_plain executeAsync_outcome_plain executeTaskAsync_effects
        executeTaskAsync_cases split: option.splits)

text \<open>
  Claim C7 as stated fails: with an empty command, a prior state equal to the current
  one and incremental builds allowed, the task ends Skipped and writes nothing.
\<close>

theorem emptyScript_success_counterexample:
  "commandToRun ((exampleBuilder ''A'')\<lparr>commandToRun := []\<rparr>) = [] \<and>
   outcome (executeAsync ((exampleBuilder ''A'')\<lparr>commandToRun := []\<rparr>)
     (exampleEnvironment\<lparr>depsFileExists := True,
        depsFileContent := Some \<lparr>files = [(''src/index.ts'', ''0a1b'')], arguments = []\<rparr>\<rparr>))
     = Inr Skipped \<and>
   effects (executeAsync ((exampleBuilder ''A'')\<lparr>commandToRun := []\<rparr>)
     (exampleEnvironment\<lparr>depsFileExists := True,
        depsFileContent := Some \<lparr>files = [(''src/index.ts'', ''0a1b'')], arguments = []\<rparr>\<rparr>))
     = []"
  by (simp add: builder_example_simps)

theorem emptyScript_no_process_witness:
  "commandToRun ((exampleBuilder ''A'')\<lparr>commandToRun := []\<rparr>) = [] \<and>
   outcome (executeAsync ((exampleBuilder ''A'')\<lparr>commandToRun := []\<rparr>) exampleEnvironment)
     = Inr Success \<and>
   SaveJsonFile \<lparr>files = [(''src/index.ts'', ''0a1b'')], arguments = []\<rparr> CurrentDepsPath
     \<in> set (effects (executeAsync ((exampleBuilder ''A'')\<lparr>commandToRun := []\<rparr>) exampleEnvironment)) \<and>
   (\<forall>command. ExecuteLifecycleCommand command
      \<notin> set (effects (executeAsync ((exampleBuilder ''A'')\<lparr>commandToRun := []\<rparr>) exampleEnvironment)))"
proof -
  let ?b = "(exampleBuilder ''A'')\<lparr>commandToRun := []\<rparr>"
  have c: "commandToRun ?b = []" by simp
  have h: "restoreFromCacheSuccess ?b exampleEnvironment \<noteq> Some True"
    "\<not> (isPackageUnchanged ?b exampleEnvironment \<and> isIncrementalBuildAllowed ?b)"
    "projectBuildDeps ?b exampleEnvironment
       = Some \<lparr>files = [(''src/index.ts'', ''0a1b'')], arguments = []\<rparr>"
    by (simp_all add: builder_example_simps)
  from emptyScript_no_process [OF c, of exampleEnvironment] h c
  show ?thesis by simp
qed

text \<open>
  Claim C9. When the change analyzer throws, a fresh builder never ends Skipped (nor
  FromCache), it runs the command if there is one, it writes no state file and stores
  no cache entry, and on exit code zero the task ends Success or SuccessWithWarning.
\<close>

theorem analyzer_unavailable:
  assumes "packageDeps env = None" and "projectBuildCache b = None"
  shows "outcome (executeAsync b env) \<noteq> Inr Skipped \<and>
         outcome (executeAsync b env) \<noteq> Inr FromCache \<and>
         (commandToRun b \<noteq> [] \<longrightarrow>
            ExecuteLifecycleCommand (commandToRun b) \<in> set (effects (executeAsync b env))) \<and>
         (\<forall>deps path. SaveJsonFile deps path \<notin> set (effects (executeAsync b env))) \<and>
         TrySetCacheEntry \<notin> set (effects (executeAsync b env)) \<and>
         TryRestoreFromCache \<notin> set (effects (executeAsync b env)) \<and>
         (exitCode env = 0 \<longrightarrow> \<not> projectLogWritableIsOpen env \<longrightarrow>
            outcome (executeAsync b env) = Inr Success \<or>
            outcome (executeAsync b env) = Inr SuccessWithWarning)"
proof -
  have tf: "trackedFiles env = None" using assms(1) by (simp add: trackedFiles_def)
  have cache: "projectBuildCache (getProjectBuildCacheAsync b env None) = None"
    using assms(2) by (simp add: getProjectBuildCacheAsync_def tryGetProjectBuildCache_def)
  have restore: "restoreFromCacheSuccess b env = None"
    by (simp add: restoreFromCacheSuccess_def tf cache)
  have deps: "projectBuildDeps b env = None" using assms(1) by (simp add: projectBuildDeps_def)
  have unchanged: "\<not> isPackageUnchanged b env"
    by (simp add: isPackageUnchanged_def deps split: option.splits)
  have eff: "effects (executeAsync b env) =
      (if commandToRun b = [] then [DeleteFile CurrentDepsPath, DeleteFile LegacyDepsPath]
       else [DeleteFile CurrentDepsPath, DeleteFile LegacyDepsPath,
             ExecuteLifecycleCommand (commandToRun b)]
            @ map (\<lambda>(kind, chunk). WriteChunk kind chunk) (chunks env))"
    by (simp add: executeAsync_effects_plain executeTaskAsync_effects tf cache restore deps unchanged)
  have out: "outcome (executeAsync b env) =
      (if commandToRun b = [] then Inr Success
       else if exitCode env \<noteq> 0
       then Inl (TaskError ''executing'' (ReturnedErrorCode (exitCode env)))
       else if projectLogWritableIsOpen env
       then Inl (TaskError ''executing'' OutputFileHandleNotClosed)
       else if hasWarningOrError env then Inr SuccessWithWarning else Inr Success)"
    by (simp add: executeAsync_outcome_plain executeTaskAsync_cases runCommand_outcome
          tf cache restore deps unchanged)
  have chunk: "SaveJsonFile d p \<notin> set (map (\<lambda>(kind, chunk). WriteChunk kind chunk) (chunks env))"
    "TrySetCacheEntry \<notin> set (map (\<lambda>(kind, chunk). WriteChunk kind chunk) (chunks env))"
    "TryRestoreFromCache \<notin> set (map (\<lambda>(kind, chunk). WriteChunk kind chunk) (chunks env))"
    for d p
    by auto
  show ?thesis unfolding eff out using chunk by simp
qed

theorem analyzer_unavailable_witness:
  "packageDeps (exampleEnvironment\<lparr>packageDeps := None, depsFileExists := True,
       depsFileContent := Some \<lparr>files = [(''src/index.ts'', ''0a1b'')], arguments = ''echo hi''\<rparr>,
       projectConfigurationLoads := True, cacheEligible := True, restoreFromCacheResult := True\<rparr>) = None \<and>
   outcome (executeAsync ((exampleBuilder ''A'')\<lparr>buildCacheConfiguration := Some BuildCacheConfiguration\<rparr>)
     (exampleEnvironment\<lparr>packageDeps := None, depsFileExists := True,
       depsFileContent := Some \<lparr>files = [(''src/index.ts'', ''0a1b'')], arguments = ''echo hi''\<rparr>,
       projectConfigurationLoads := True, cacheEligible := True, restoreFromCacheResult := True\<rparr>))
     = Inr Success \<and>
   ExecuteLifecycleCommand ''echo hi'' \<in> set (effects (executeAsync
     ((exampleBuilder ''A'')\<lparr>buildCacheConfiguration := Some BuildCacheConfiguration\<rparr>)
     (exampleEnvironment\<lparr>packageDeps := None, depsFileExists := True,
       depsFileContent := Some \<lparr>files = [(''src/index.ts'', ''0a1b'')], arguments = ''echo hi''\<rparr>,
       projectConfigurationLoads := True, cacheEligible := True, restoreFromCacheResult := True\<rparr>))) \<and>
   TrySetCacheEntry \<notin> set (effects (executeAsync
     ((exampleBuilder ''A'')\<lparr>buildCacheConfiguration := Some BuildCacheConfiguration\<rparr>)
     (exampleEnvironment\<lparr>packageDeps := None, depsFileExists := True,
       depsFileContent := Some \<lparr>files = [(''src/index.ts'', ''0a1b'')], arguments = ''echo hi''\<rparr>,
       projectConfigurationLoads := True, cacheEligible := True, restoreFromCacheResult := True\<rparr>)))"
proof -
  let ?b = "(exampleBuilder ''A'')\<lparr>buildCacheConfiguration := Some BuildCacheConfiguration\<rparr>"
  let ?env = "exampleEnvironment\<lparr>packageDeps := None, depsFileExists := True,
       depsFileContent := Some \<lparr>files = [(''src/index.ts'', ''0a1b'')], arguments = ''echo hi''\<rparr>,
       projectConfigurationLoads := True, cacheEligible := True, restoreFromCacheResult := True\<rparr>"
  have h: "packageDeps ?env = None" "projectBuildCache ?b = None"
    by (simp_all add: exampleBuilder_def)
  have c: "commandToRun ?b = ''echo hi''" "exitCode ?env = 0" "\<not> projectLogWritableIsOpen ?env"
    by (simp_all add: exampleBuilder_def exampleEnvironment_def)
  have noWarn: "outcome (executeAsync ?b ?env) \<noteq> Inr SuccessWithWarning"
    by (simp add: builder_example_simps)
  from analyzer_unavailable [OF h] c noWarn h(1)
  show ?thesis by simp
qed

theorem fromCache_leaves_state_file_witness:
  "restoreFromCacheSuccess
     ((exampleBuilder ''A'')\<lparr>buildCacheConfiguration := Some BuildCacheConfiguration\<rparr>)
     (exampleEnvironment\<lparr>projectConfigurationLoads := True, cacheEligible := True,
        restoreFromCacheResult := True\<rparr>) = Some True \<and>
   outcome (executeAsync
     ((exampleBuilder ''A'')\<lparr>buildCacheConfiguration := Some BuildCacheConfiguration\<rparr>)
     (exampleEnvironment\<lparr>projectConfigurationLoads := True, cacheEligible := True,
        restoreFromCacheResult := True\<rparr>)) = Inr FromCache"
proof -
  have h: "restoreFromCacheSuccess
     ((exampleBuilder ''A'')\<lparr>buildCacheConfiguration := Some BuildCacheConfiguration\<rparr>)
     (exampleEnvironment\<lparr>projectConfigurationLoads := True, cacheEligible := True,
        restoreFromCacheResult := True\<rparr>) = Some True"
    by (simp add: builder_example_simps)
  from fromCache_leaves_state_file [OF h] h show ?thesis by simp
qed

text \<open>With a changed hash in the prior state the command runs, with the same hash it is skipped.\<close>

lemma skipped_iff_own_keys_example:
  "outcome (executeAsync (exampleBuilder ''A'')
     (exampleEnvironment\<lparr>depsFileExists := True,
        depsFileContent := Some \<lparr>files = [(''src/index.ts'', ''0a1b'')], arguments = ''echo hi''\<rparr>\<rparr>))
     = Inr Skipped \<and>
   outcome (executeAsync (exampleBuilder ''A'')
     (exampleEnvironment\<lparr>depsFileExists := True,
        depsFileContent := Some \<lparr>files = [(''src/index.ts'', ''ffff'')], arguments = ''echo hi''\<rparr>\<rparr>))
     \<noteq> Inr Skipped"
proof -
  let ?env = "\<lambda>h. exampleEnvironment\<lparr>depsFileExists := True,
        depsFileContent := Some \<lparr>files = [(''src/index.ts'', h)], arguments = ''echo hi''\<rparr>\<rparr>"
  have 1: "\<forall>fileHashes. packageDeps (?env h) = Some fileHashes \<longrightarrow>
             distinct (map fst fileHashes) \<and> ''__proto__'' \<notin> fst ` set fileHashes" for h
    by (auto simp: exampleEnvironment_def)
  have 2: "\<forall>previous. lastProjectBuildDeps (?env h) = Some previous \<longrightarrow>
             fst ` set (files previous) \<inter> set objectPrototypeMembers = {}" for h
    by (auto simp: lastProjectBuildDeps_def exampleEnvironment_def objectPrototypeMembers_def)
  show ?thesis
    unfolding skipped_iff_own_keys [OF 1 2]
    by (auto simp: restoreFromCacheSuccess_def getProjectBuildCacheAsync_def
          lastProjectBuildDeps_def exampleBuilder_def exampleEnvironment_def
          dest: map_upd_eqD1)
qed


section \<open>Proofs: task selector\<close>

lemma collect_visit:
  "collectAllDependencies fuel cfg n result
     = visit fuel (\<lambda>n. map_option localDependencyProjects (projectNamed cfg n)) n result"
  "collectEachDependency fuel cfg ns result
     = visitEach fuel (\<lambda>n. map_option localDependencyProjects (projectNamed cfg n)) ns result"
proof (induction fuel cfg n result and fuel cfg ns result
       rule: collectAllDependencies_collectEachDependency.induct)
  case (1 fuel cfg project result)
  then show ?case by (auto split: nat.splits option.splits)
next
  case (2 fuel cfg result)
  then show ?case by simp
next
  case (3 fuel cfg d rest result)
  then show ?case by (auto split: sum.splits)
qed

lemma collectDependents_visit:
  "collectAllDependents fuel dl n result
     = visit fuel (\<lambda>n. Some (case map_of dl n of None \<Rightarrow> [] | Some members \<Rightarrow> members)) n result"
  "collectEachDependent fuel dl ns result
     = visitEach fuel (\<lambda>n. Some (case map_of dl n of None \<Rightarrow> [] | Some members \<Rightarrow> members)) ns result"
proof (induction fuel dl n result and fuel dl ns result
       rule: collectAllDependents_collectEachDependent.induct)
  case (1 fuel dl project result)
  then show ?case by (auto split: nat.splits option.splits)
next
  case (2 fuel dl result)
  then show ?case by simp
next
  case (3 fuel dl d rest result)
  then show ?case by (auto split: sum.splits)
qed

lemma visit_spec:
  "visit fuel nexts n R = Inr R' \<Longrightarrow>
     set R \<subseteq> set R' \<and> n \<in> set R' \<and>
     (\<forall>x \<in> set R' - set R. edgesOf nexts `` {x} \<subseteq> set R') \<and>
     set R' \<subseteq> set R \<union> (edgesOf nexts)\<^sup>* `` {n}"
  "visitEach fuel nexts ns R = Inr R' \<Longrightarrow>
     set R \<subseteq> set R' \<and> set ns \<subseteq> set R' \<and>
     (\<forall>x \<in> set R' - set R. edgesOf nexts `` {x} \<subseteq> set R') \<and>
     set R' \<subseteq> set R \<union> (edgesOf nexts)\<^sup>* `` set ns"
proof (induction fuel nexts n R and fuel nexts ns R arbitrary: R' and R'
       rule: visit_visitEach.induct)
  case (1 fuel nexts n R)
  show ?case
  proof (cases "n \<in> set R")
    case True
    with "1.prems" show ?thesis by auto
  next
    case False
    with "1.prems" obtain f ns where f: "fuel = Suc f" and ns: "nexts n = Some ns"
      and run: "visitEach f nexts ns (R @ [n]) = Inr R'"
      by (auto split: nat.splits option.splits)
    from "1.IH" [OF False f ns run]
    have a: "set (R @ [n]) \<subseteq> set R'" and b: "set ns \<subseteq> set R'"
      and c: "\<forall>x \<in> set R' - set (R @ [n]). edgesOf nexts `` {x} \<subseteq> set R'"
      and d: "set R' \<subseteq> set (R @ [n]) \<union> (edgesOf nexts)\<^sup>* `` set ns" by simp_all
    have en: "edgesOf nexts `` {n} = set ns" using ns by (auto simp: edgesOf_def)
    have closed: "\<forall>x \<in> set R' - set R. edgesOf nexts `` {x} \<subseteq> set R'"
    proof
      fix x assume x: "x \<in> set R' - set R"
      show "edgesOf nexts `` {x} \<subseteq> set R'"
      proof (cases "x = n")
        case True
        with en b show ?thesis by simp
      next
        case False
        with x c show ?thesis by simp
      qed
    qed
    have "(edgesOf nexts)\<^sup>* `` set ns \<subseteq> (edgesOf nexts)\<^sup>* `` {n}"
    proof
      fix y assume "y \<in> (edgesOf nexts)\<^sup>* `` set ns"
      then obtain m where m: "m \<in> set ns" "(m, y) \<in> (edgesOf nexts)\<^sup>*" by auto
      then have "(n, m) \<in> edgesOf nexts" using en by auto
      with m(2) show "y \<in> (edgesOf nexts)\<^sup>* `` {n}" by (auto intro: converse_rtrancl_into_rtrancl)
    qed
    with d have "set R' \<subseteq> set R \<union> (edgesOf nexts)\<^sup>* `` {n}" by auto
    with a closed show ?thesis by auto
  qed
next
  case (2 fuel nexts R)
  then show ?case by simp
next
  case (3 fuel nexts n ns R)
  from "3.prems" obtain R1 where first: "visit fuel nexts n R = Inr R1"
    and rest: "visitEach fuel nexts ns R1 = Inr R'"
    by (auto split: sum.splits)
  from "3.IH"(1) [OF first]
  have a1: "set R \<subseteq> set R1" and b1: "n \<in> set R1"
    and c1: "\<forall>x \<in> set R1 - set R. edgesOf nexts `` {x} \<subseteq> set R1"
    and d1: "set R1 \<subseteq> set R \<union> (edgesOf nexts)\<^sup>* `` {n}" by simp_all
  from "3.IH"(2) [OF first rest]
  have a2: "set R1 \<subseteq> set R'" and b2: "set ns \<subseteq> set R'"
    and c2: "\<forall>x \<in> set R' - set R1. edgesOf nexts `` {x} \<subseteq> set R'"
    and d2: "set R' \<subseteq> set R1 \<union> (edgesOf nexts)\<^sup>* `` set ns" by simp_all
  have closed: "\<forall>x \<in> set R' - set R. edgesOf nexts `` {x} \<subseteq> set R'"
  proof
    fix x assume x: "x \<in> set R' - set R"
    show "edgesOf nexts `` {x} \<subseteq> set R'"
    proof (cases "x \<in> set R1")
      case True
      with x c1 a2 show ?thesis by blast
    next
      case False
      with x c2 show ?thesis by simp
    qed
  qed
  have "set R' \<subseteq> set R \<union> (edgesOf nexts)\<^sup>* `` set (n # ns)"
    using d1 d2 by auto
  with a1 a2 b1 b2 closed show ?case by auto
qed

lemma visitEach_closure:
  assumes "visitEach fuel nexts roots [] = Inr R"
  shows "set R = (edgesOf nexts)\<^sup>* `` set roots"
proof
  from visit_spec(2) [OF assms]
  have roots: "set roots \<subseteq> set R" and closed: "\<forall>x \<in> set R. edgesOf nexts `` {x} \<subseteq> set R"
    and sound: "set R \<subseteq> (edgesOf nexts)\<^sup>* `` set roots" by simp_all
  show "set R \<subseteq> (edgesOf nexts)\<^sup>* `` set roots" by (rule sound)
  show "(edgesOf nexts)\<^sup>* `` set roots \<subseteq> set R"
  proof
    fix y assume "y \<in> (edgesOf nexts)\<^sup>* `` set roots"
    then obtain r where r: "r \<in> set roots" and path: "(r, y) \<in> (edgesOf nexts)\<^sup>*" by auto
    from path show "y \<in> set R"
    proof (induction rule: rtrancl_induct)
      case base
      with r roots show ?case by auto
    next
      case (step y z)
      with closed show ?case by auto
    qed
  qed
qed

lemma visit_total:
  "finite U \<Longrightarrow> \<forall>x \<in> U. \<exists>ns. nexts x = Some ns \<and> set ns \<subseteq> U \<Longrightarrow> n \<in> U \<Longrightarrow>
     card (U - set R) \<le> fuel \<Longrightarrow> \<exists>R'. visit fuel nexts n R = Inr R'"
  "finite U \<Longrightarrow> \<forall>x \<in> U. \<exists>ns. nexts x = Some ns \<and> set ns \<subseteq> U \<Longrightarrow> set ns \<subseteq> U \<Longrightarrow>
     card (U - set R) \<le> fuel \<Longrightarrow> \<exists>R'. visitEach fuel nexts ns R = Inr R'"
proof (induction fuel nexts n R and fuel nexts ns R rule: visit_visitEach.induct)
  case (1 fuel nexts n R)
  show ?case
  proof (cases "n \<in> set R")
    case True
    then show ?thesis by simp
  next
    case False
    then have nin: "n \<in> U - set R" using "1.prems"(3) by simp
    then have "0 < card (U - set R)" using "1.prems"(1) by (metis card_gt_0_iff empty_iff finite_Diff)
    then obtain f where f: "fuel = Suc f" using "1.prems"(4) by (cases fuel) auto
    obtain ns where ns: "nexts n = Some ns" "set ns \<subseteq> U" using "1.prems"(2,3) by blast
    have "U - set (R @ [n]) = (U - set R) - {n}" by auto
    then have "card (U - set (R @ [n])) = card (U - set R) - 1"
      using nin "1.prems"(1) by simp
    then have c: "card (U - set (R @ [n])) \<le> f" using "1.prems"(4) f by simp
    from "1.IH" [OF False f ns(1) "1.prems"(1,2) ns(2) c]
    show ?thesis using False f ns(1) by simp
  qed
next
  case (2 fuel nexts R)
  then show ?case by simp
next
  case (3 fuel nexts n ns R)
  have "n \<in> U" "set ns \<subseteq> U" using "3.prems"(3) by simp_all
  from "3.IH"(1) [OF "3.prems"(1,2) this(1) "3.prems"(4)]
  obtain R1 where first: "visit fuel nexts n R = Inr R1" by blast
  have "set R \<subseteq> set R1" using visit_spec(1) [OF first] by simp
  then have "U - set R1 \<subseteq> U - set R" by blast
  then have "card (U - set R1) \<le> card (U - set R)"
    using "3.prems"(1) by (simp add: card_mono)
  then have c: "card (U - set R1) \<le> fuel" using "3.prems"(4) by simp
  from "3.IH"(2) [OF first "3.prems"(1,2) \<open>set ns \<subseteq> U\<close> c] first
  show ?case by simp
qed

lemma hasTask_registered: "hasTask tc n \<longleftrightarrow> n \<in> registered tc"
  by (simp add: hasTask_def registered_def map_of_eq_None_iff)

lemma projectNamed_SomeD:
  "projectNamed cfg n = Some p \<Longrightarrow> p \<in> set (projects cfg) \<and> packageName p = n"
  by (auto simp: projectNamed_def find_Some_iff)

lemma projectNamed_exists:
  "n \<in> projectNames cfg \<Longrightarrow> \<exists>p. projectNamed cfg n = Some p"
  by (cases "projectNamed cfg n") (auto simp: projectNamed_def projectNames_def find_None_iff)

lemma projectNamed_member:
  assumes "wellFormedConfiguration cfg" "p \<in> set (projects cfg)"
  shows "projectNamed cfg (packageName p) = Some p"
proof -
  have "packageName p \<in> projectNames cfg" using assms(2) by (simp add: projectNames_def)
  then obtain q where q: "projectNamed cfg (packageName p) = Some q"
    using projectNamed_exists by blast
  then have "q \<in> set (projects cfg)" "packageName q = packageName p"
    by (simp_all add: projectNamed_SomeD)
  moreover have "inj_on packageName (set (projects cfg))"
    using assms(1) by (simp add: wellFormedConfiguration_def distinct_map)
  ultimately have "q = p" using assms(2) by (auto dest: inj_onD)
  with q show ?thesis by simp
qed

lemma edges_dependencies:
  assumes "wellFormedConfiguration cfg"
  shows "edgesOf (\<lambda>n. map_option localDependencyProjects (projectNamed cfg n)) = localDependencies cfg"
proof (intro set_eqI iffI; clarify)
  fix a b assume "(a, b) \<in> edgesOf (\<lambda>n. map_option localDependencyProjects (projectNamed cfg n))"
  then obtain p where "projectNamed cfg a = Some p" "b \<in> set (localDependencyProjects p)"
    by (auto simp: edgesOf_def)
  then show "(a, b) \<in> localDependencies cfg"
    using projectNamed_SomeD by (fastforce simp: localDependencies_def)
next
  fix a b assume "(a, b) \<in> localDependencies cfg"
  then obtain p where p: "p \<in> set (projects cfg)" "packageName p = a" "b \<in> set (localDependencyProjects p)"
    by (auto simp: localDependencies_def)
  from projectNamed_member [OF assms p(1)] p(2,3)
  show "(a, b) \<in> edgesOf (\<lambda>n. map_option localDependencyProjects (projectNamed cfg n))"
    by (auto simp: edgesOf_def)
qed

lemma map_of_addDependent:
  "map_of (addDependent d p dl) = (map_of dl)(d \<mapsto> setAdd p (membersOf dl d))"
proof (cases "map_of dl d")
  case None
  have "map_of (dl @ [(d, [p])]) n = ((map_of dl)(d \<mapsto> [p])) n" for n
    using None by (cases "map_of dl n") (auto simp: map_add_def)
  then show ?thesis using None by (auto simp: addDependent_def membersOf_def setAdd_def)
next
  case (Some members)
  then show ?thesis by (simp add: addDependent_def membersOf_def update_conv')
qed

lemma membersOf_addDependent:
  "set (membersOf (addDependent d p dl) n)
     = (if n = d then insert p (set (membersOf dl n)) else set (membersOf dl n))"
proof -
  have "membersOf (addDependent d p dl) n
          = (if n = d then setAdd p (membersOf dl d) else membersOf dl n)"
    unfolding membersOf_def [of "addDependent d p dl"] map_of_addDependent
    by (simp add: membersOf_def)
  then show ?thesis by (auto simp: setAdd_def)
qed

lemma membersOf_inner:
  "set (membersOf (fold (\<lambda>d. addDependent d p) ds dl) n)
     = set (membersOf dl n) \<union> (if n \<in> set ds then {p} else {})"
  by (induction ds arbitrary: dl) (auto simp: membersOf_addDependent)

lemma membersOf_outer:
  "set (membersOf (fold (\<lambda>project dependentList.
             fold (\<lambda>dependencyName. addDependent dependencyName (packageName project))
               (localDependencyProjects project) dependentList) ps dl) n)
     = set (membersOf dl n) \<union> {packageName q | q. q \<in> set ps \<and> n \<in> set (localDependencyProjects q)}"
proof (induction ps arbitrary: dl)
  case Nil
  then show ?case by simp
next
  case (Cons p ps)
  show ?case by (simp add: Cons.IH membersOf_inner) blast
qed

lemma membersOf_graph:
  "set (membersOf (getDependentGraph cfg) n) = {a. (a, n) \<in> localDependencies cfg}"
  unfolding getDependentGraph_def membersOf_outer
  by (auto simp: membersOf_def localDependencies_def)

lemma edges_dependents:
  "edgesOf (\<lambda>n. Some (case map_of (getDependentGraph cfg) n of None \<Rightarrow> [] | Some members \<Rightarrow> members))
     = (localDependencies cfg)\<inverse>"
  using membersOf_graph [of cfg]
  by (auto simp: edgesOf_def membersOf_def)

lemma linkDependencies_ok:
  "set ds \<subseteq> registered tc \<Longrightarrow>
     \<exists>tc'. linkDependencies n ds tc = (None, tc') \<and> registered tc' = registered tc"
proof (induction ds arbitrary: tc)
  case Nil
  then show ?case by simp
next
  case (Cons d ds)
  let ?tc1 = "updateTask d (\<lambda>x. x\<lparr>dependents := setAdd n (dependents x)\<rparr>)
               (updateTask n (\<lambda>t. t\<lparr>dependencies := setAdd d (dependencies t)\<rparr>) tc)"
  have r: "registered ?tc1 = registered tc" by (simp add: registered_def map_fst_updateTask)
  have "hasTask tc d" using Cons.prems by (simp add: hasTask_registered)
  moreover have "set ds \<subseteq> registered ?tc1" using Cons.prems r by simp
  from Cons.IH [OF this] obtain tc' where
    "linkDependencies n ds ?tc1 = (None, tc')" "registered tc' = registered ?tc1" by blast
  ultimately show ?case using r by simp
qed

lemma addDependencies_ok:
  assumes "n \<in> registered tc" "set ds \<subseteq> registered tc"
  shows "\<exists>tc'. addDependencies n (Some ds) tc = (None, tc') \<and> registered tc' = registered tc"
proof -
  obtain t where "map_of tc n = Some t"
    using assms(1) by (auto simp: registered_def dom_map_of_conv_image_fst [symmetric])
  then have "addDependencies n (Some ds) tc = linkDependencies n ds tc"
    by (simp add: addDependencies_def)
  with linkDependencies_ok [OF assms(2)] show ?thesis by simp
qed

lemma addOrdering_ok:
  assumes "set ns \<subseteq> projectNames (rushConfiguration options)" "set ns \<subseteq> registered tc"
    and "\<forall>n \<in> set ns. \<forall>p. projectNamed (rushConfiguration options) n = Some p \<longrightarrow>
           set (filter keep (localDependencyProjects p)) \<subseteq> registered tc"
  shows "\<exists>tc'. addOrdering options keep ns tc = Inr tc' \<and> registered tc' = registered tc"
  using assms
proof (induction ns arbitrary: tc)
  case Nil
  then show ?case by simp
next
  case (Cons n ns)
  obtain p where p: "projectNamed (rushConfiguration options) n = Some p"
    using Cons.prems(1) projectNamed_exists by force
  then have name: "getTaskName p = n" using projectNamed_SomeD by (simp add: getTaskName_def)
  have "n \<in> registered tc" using Cons.prems(2) by simp
  moreover have "set (filter keep (localDependencyProjects p)) \<subseteq> registered tc"
    using Cons.prems(3) p by simp
  ultimately obtain tc1 where
    tc1: "addDependencies n (Some (filter keep (localDependencyProjects p))) tc = (None, tc1)"
    and r1: "registered tc1 = registered tc"
    using addDependencies_ok by blast
  have "\<exists>tc'. addOrdering options keep ns tc1 = Inr tc' \<and> registered tc' = registered tc1"
    by (rule Cons.IH) (use Cons.prems r1 in auto)
  then show ?case using p name tc1 r1 by auto
qed

lemma getScriptToRun_cases:
  "(\<exists>command. getScriptToRun options p = Inr command) \<or>
   (getScriptToRun options p = Inl (MissingScript (packageName p) (commandToRun_option options)) \<and>
    \<not> ignoreMissingScript options)"
  by (auto simp: getScriptToRun_def Let_def split: option.splits)

lemma registerTask_cases:
  assumes "projectNamed (rushConfiguration options) n = Some p"
  shows "(\<exists>tc'. registerTask options (Some p) tc = Inr tc' \<and>
             registered tc' = insert n (registered tc)) \<or>
         (registerTask options (Some p) tc
            = Inl (MissingScript n (commandToRun_option options)) \<and>
          \<not> ignoreMissingScript options)"
proof -
  have name: "packageName p = n" using assms projectNamed_SomeD by simp
  show ?thesis
  proof (cases "hasTask tc (getTaskName p)")
    case True
    then have "n \<in> registered tc" using name by (simp add: hasTask_registered getTaskName_def)
    with True show ?thesis by (auto simp: registerTask_def)
  next
    case False
    from getScriptToRun_cases [of options p] show ?thesis
    proof
      assume "\<exists>command. getScriptToRun options p = Inr command"
      then obtain command where c: "getScriptToRun options p = Inr command" by blast
      have bname: "ProjectBuilder_name (newProjectBuilder options p command) = n"
        using name by (simp add: ProjectBuilder_name_def newProjectBuilder_def getTaskName_def)
      then have "\<not> hasTask tc (ProjectBuilder_name (newProjectBuilder options p command))"
        using False name by (simp add: getTaskName_def)
      then have "registerTask options (Some p) tc
         = Inr (tc @ [(n, (newTask (newProjectBuilder options p command) Ready)\<lparr>criticalPathLength := None\<rparr>)])"
        using False c bname by (simp add: registerTask_def addTask_def Task_name_def newTask_def)
      then show ?thesis by (simp add: registered_def)
    next
      assume "getScriptToRun options p = Inl (MissingScript (packageName p) (commandToRun_option options)) \<and>
              \<not> ignoreMissingScript options"
      with False name show ?thesis by (simp add: registerTask_def)
    qed
  qed
qed

lemma registerEach_cases:
  assumes "set ns \<subseteq> projectNames (rushConfiguration options)"
  shows "(\<exists>tc'. registerEach options ns tc = Inr tc' \<and> registered tc' = registered tc \<union> set ns) \<or>
         ((\<exists>n. registerEach options ns tc = Inl (MissingScript n (commandToRun_option options))) \<and>
          \<not> ignoreMissingScript options)"
  using assms
proof (induction ns arbitrary: tc)
  case Nil
  then show ?case by simp
next
  case (Cons n ns)
  obtain p where p: "projectNamed (rushConfiguration options) n = Some p"
    using Cons.prems projectNamed_exists by force
  from registerTask_cases [OF p, of tc] show ?case
  proof
    assume "\<exists>tc'. registerTask options (Some p) tc = Inr tc' \<and>
             registered tc' = insert n (registered tc)"
    then obtain tc1 where tc1: "registerTask options (Some p) tc = Inr tc1"
      "registered tc1 = insert n (registered tc)" by blast
    have "set ns \<subseteq> projectNames (rushConfiguration options)" using Cons.prems by simp
    from Cons.IH [OF this, of tc1] show ?thesis
      using p tc1 by auto
  next
    assume "registerTask options (Some p) tc
            = Inl (MissingScript n (commandToRun_option options)) \<and>
          \<not> ignoreMissingScript options"
    then show ?thesis using p by auto
  qed
qed

lemma closure_in_names:
  assumes wf: "wellFormedConfiguration cfg"
  shows "(a, b) \<in> (localDependencies cfg)\<^sup>* \<Longrightarrow> a \<in> projectNames cfg \<Longrightarrow> b \<in> projectNames cfg"
proof (induction rule: rtrancl_induct)
  case base
  then show ?case .
next
  case (step b c)
  then obtain p where "p \<in> set (projects cfg)" "c \<in> set (localDependencyProjects p)"
    by (auto simp: localDependencies_def)
  with wf show ?case by (auto simp: wellFormedConfiguration_def)
qed

lemma dependent_in_names:
  "(a, b) \<in> localDependencies cfg \<Longrightarrow> a \<in> projectNames cfg"
  by (auto simp: localDependencies_def projectNames_def)

lemma closure_down_in_names:
  "(b, a) \<in> (localDependencies cfg)\<^sup>* \<Longrightarrow> a \<in> projectNames cfg \<Longrightarrow> b \<in> projectNames cfg"
  by (induction rule: converse_rtrancl_induct) (auto dest: dependent_in_names)

lemma card_names: "card (projectNames cfg - set []) \<le> length (projects cfg)"
  using card_length [of "map packageName (projects cfg)"] by (simp add: projectNames_def)

lemma collectDependencies_closure:
  assumes wf: "wellFormedConfiguration cfg" and roots: "set roots \<subseteq> projectNames cfg"
  shows "\<exists>R. collectEachDependency (length (projects cfg)) cfg roots [] = Inr R \<and>
             set R = (localDependencies cfg)\<^sup>* `` set roots"
proof -
  let ?nexts = "\<lambda>n. map_option localDependencyProjects (projectNamed cfg n)"
  have fin: "finite (projectNames cfg)" by (simp add: projectNames_def)
  have step: "\<forall>x \<in> projectNames cfg. \<exists>ns. ?nexts x = Some ns \<and> set ns \<subseteq> projectNames cfg"
  proof
    fix x assume "x \<in> projectNames cfg"
    then obtain p where p: "projectNamed cfg x = Some p" using projectNamed_exists by blast
    then have "p \<in> set (projects cfg)" by (simp add: projectNamed_SomeD)
    with wf have "set (localDependencyProjects p) \<subseteq> projectNames cfg"
      by (simp add: wellFormedConfiguration_def)
    with p show "\<exists>ns. ?nexts x = Some ns \<and> set ns \<subseteq> projectNames cfg" by simp
  qed
  from visit_total(2) [OF fin step roots card_names]
  obtain R where R: "visitEach (length (projects cfg)) ?nexts roots [] = Inr R" by blast
  from visitEach_closure [OF R] have "set R = (localDependencies cfg)\<^sup>* `` set roots"
    by (simp add: edges_dependencies [OF wf])
  with R show ?thesis by (simp add: collect_visit)
qed

lemma collectDependents_closure:
  assumes roots: "set roots \<subseteq> projectNames cfg"
  shows "\<exists>R. collectEachDependent (length (projects cfg)) (getDependentGraph cfg) roots [] = Inr R \<and>
             set R = ((localDependencies cfg)\<inverse>)\<^sup>* `` set roots"
proof -
  let ?nexts = "\<lambda>n. Some (case map_of (getDependentGraph cfg) n of None \<Rightarrow> [] | Some members \<Rightarrow> members)"
  have fin: "finite (projectNames cfg)" by (simp add: projectNames_def)
  have step: "\<forall>x \<in> projectNames cfg. \<exists>ns. ?nexts x = Some ns \<and> set ns \<subseteq> projectNames cfg"
  proof
    fix x
    have "set (membersOf (getDependentGraph cfg) x) \<subseteq> projectNames cfg"
      unfolding membersOf_graph by (auto dest: dependent_in_names)
    then show "\<exists>ns. ?nexts x = Some ns \<and> set ns \<subseteq> projectNames cfg"
      by (simp add: membersOf_def)
  qed
  from visit_total(2) [OF fin step roots card_names]
  obtain R where R: "visitEach (length (projects cfg)) ?nexts roots [] = Inr R" by blast
  from visitEach_closure [OF R] have "set R = ((localDependencies cfg)\<inverse>)\<^sup>* `` set roots"
    by (simp add: edges_dependents)
  with R show ?thesis by (simp add: collectDependents_visit)
qed

lemma registerToProjects_cases:
  assumes wf: "wellFormedConfiguration (rushConfiguration options)"
    and roots: "set roots \<subseteq> projectNames (rushConfiguration options)"
  shows "(\<exists>tc'. registerToProjects options roots tc = Inr tc' \<and>
            registered tc' = registered tc \<union> (localDependencies (rushConfiguration options))\<^sup>* `` set roots) \<or>
         ((\<exists>n. registerToProjects options roots tc = Inl (MissingScript n (commandToRun_option options))) \<and>
          \<not> ignoreMissingScript options)"
proof -
  let ?cfg = "rushConfiguration options"
  from collectDependencies_closure [OF wf roots] obtain R where
    R: "collectEachDependency (length (projects ?cfg)) ?cfg roots [] = Inr R"
    and setR: "set R = (localDependencies ?cfg)\<^sup>* `` set roots" by blast
  have names: "set R \<subseteq> projectNames ?cfg"
    unfolding setR using closure_in_names [OF wf] roots by blast
  from registerEach_cases [OF names, of tc] show ?thesis
  proof
    assume "\<exists>tc'. registerEach options R tc = Inr tc' \<and> registered tc' = registered tc \<union> set R"
    then obtain tc1 where tc1: "registerEach options R tc = Inr tc1"
      and r1: "registered tc1 = registered tc \<union> set R" by blast
    have deps: "\<forall>n \<in> set R. \<forall>p. projectNamed ?cfg n = Some p \<longrightarrow>
           set (filter (\<lambda>x. True) (localDependencyProjects p)) \<subseteq> registered tc1"
    proof (intro ballI allI impI subsetI)
      fix n p d assume n: "n \<in> set R" and p: "projectNamed ?cfg n = Some p"
        and d: "d \<in> set (filter (\<lambda>x. True) (localDependencyProjects p))"
      have "(n, d) \<in> localDependencies ?cfg"
        using projectNamed_SomeD [OF p] d by (auto simp: localDependencies_def)
      moreover from n obtain r where "r \<in> set roots" "(r, n) \<in> (localDependencies ?cfg)\<^sup>*"
        unfolding setR by auto
      ultimately have "d \<in> set R" unfolding setR by (auto intro: rtrancl_into_rtrancl)
      then show "d \<in> registered tc1" using r1 by simp
    qed
    have "set R \<subseteq> registered tc1" using r1 by simp
    from addOrdering_ok [OF names this deps] obtain tc2 where
      "addOrdering options (\<lambda>x. True) R tc1 = Inr tc2" "registered tc2 = registered tc1" by blast
    then show ?thesis using R tc1 r1 setR by (auto simp: registerToProjects_def)
  next
    assume "(\<exists>n. registerEach options R tc = Inl (MissingScript n (commandToRun_option options))) \<and>
          \<not> ignoreMissingScript options"
    then show ?thesis using R by (auto simp: registerToProjects_def)
  qed
qed

lemma registerFromProjects_cases:
  assumes roots: "set roots \<subseteq> projectNames (rushConfiguration options)"
  shows "(\<exists>tc'. registerFromProjects options roots tc = Inr tc' \<and>
            registered tc' = registered tc \<union> ((localDependencies (rushConfiguration options))\<inverse>)\<^sup>* `` set roots) \<or>
         ((\<exists>n. registerFromProjects options roots tc = Inl (MissingScript n (commandToRun_option options))) \<and>
          \<not> ignoreMissingScript options)"
proof -
  let ?cfg = "rushConfiguration options"
  from collectDependents_closure [OF roots] obtain R where
    R: "collectEachDependent (length (projects ?cfg)) (getDependentGraph ?cfg) roots [] = Inr R"
    and setR: "set R = ((localDependencies ?cfg)\<inverse>)\<^sup>* `` set roots" by blast
  have names: "set R \<subseteq> projectNames ?cfg"
  proof
    fix b assume "b \<in> set R"
    then obtain a where "a \<in> set roots" "(b, a) \<in> (localDependencies ?cfg)\<^sup>*"
      unfolding setR rtrancl_converse by auto
    with roots closure_down_in_names show "b \<in> projectNames ?cfg" by blast
  qed
  from registerEach_cases [OF names, of tc] show ?thesis
  proof
    assume "\<exists>tc'. registerEach options R tc = Inr tc' \<and> registered tc' = registered tc \<union> set R"
    then obtain tc1 where tc1: "registerEach options R tc = Inr tc1"
      and r1: "registered tc1 = registered tc \<union> set R" by blast
    have deps: "\<forall>n \<in> set R. \<forall>p. projectNamed ?cfg n = Some p \<longrightarrow>
           set (filter (\<lambda>x. x \<in> set R) (localDependencyProjects p)) \<subseteq> registered tc1"
      using r1 by auto
    have "set R \<subseteq> registered tc1" using r1 by simp
    from addOrdering_ok [OF names this deps] obtain tc2 where
      "addOrdering options (\<lambda>x. x \<in> set R) R tc1 = Inr tc2" "registered tc2 = registered tc1" by blast
    then show ?thesis using R tc1 r1 setR by (auto simp: registerFromProjects_def)
  next
    assume "(\<exists>n. registerEach options R tc = Inl (MissingScript n (commandToRun_option options))) \<and>
          \<not> ignoreMissingScript options"
    then show ?thesis using R by (auto simp: registerFromProjects_def)
  qed
qed

lemma registerAll_cases:
  assumes wf: "wellFormedConfiguration (rushConfiguration options)"
  shows "(\<exists>tc'. registerAll options tc = Inr tc' \<and>
            registered tc' = registered tc \<union> projectNames (rushConfiguration options)) \<or>
         ((\<exists>n. registerAll options tc = Inl (MissingScript n (commandToRun_option options))) \<and>
          \<not> ignoreMissingScript options)"
proof -
  let ?cfg = "rushConfiguration options"
  let ?R = "map packageName (projects ?cfg)"
  have names: "set ?R \<subseteq> projectNames ?cfg" by (simp add: projectNames_def)
  from registerEach_cases [OF names, of tc] show ?thesis
  proof
    assume "\<exists>tc'. registerEach options ?R tc = Inr tc' \<and> registered tc' = registered tc \<union> set ?R"
    then obtain tc1 where tc1: "registerEach options ?R tc = Inr tc1"
      and r1: "registered tc1 = registered tc \<union> set ?R" by blast
    have deps: "\<forall>n \<in> set ?R. \<forall>p. projectNamed ?cfg n = Some p \<longrightarrow>
           set (filter (\<lambda>x. True) (localDependencyProjects p)) \<subseteq> registered tc1"
    proof (intro ballI allI impI)
      fix n p assume "projectNamed ?cfg n = Some p"
      then have "p \<in> set (projects ?cfg)" by (simp add: projectNamed_SomeD)
      with wf have "set (localDependencyProjects p) \<subseteq> projectNames ?cfg"
        by (simp add: wellFormedConfiguration_def)
      then show "set (filter (\<lambda>x. True) (localDependencyProjects p)) \<subseteq> registered tc1"
        using r1 by (auto simp: projectNames_def)
    qed
    have "set ?R \<subseteq> registered tc1" using r1 by simp
    from addOrdering_ok [OF names this deps] obtain tc2 where
      "addOrdering options (\<lambda>x. True) ?R tc1 = Inr tc2" "registered tc2 = registered tc1" by blast
    then show ?thesis using tc1 r1 by (auto simp: registerAll_def projectNames_def)
  next
    assume "(\<exists>n. registerEach options ?R tc = Inl (MissingScript n (commandToRun_option options))) \<and>
          \<not> ignoreMissingScript options"
    then show ?thesis by (auto simp: registerAll_def)
  qed
qed

text \<open>
  Claim C8. In a well-formed configuration, with the \<open>to\<close> and \<open>from\<close> projects among its
  projects, the tasks that \<open>registerTasks\<close> registers are exactly: every project of the
  configuration when both lists are empty; otherwise the projects reachable from a \<open>to\<close>
  project along the local dependencies, together with the projects from which a \<open>from\<close>
  project is reachable. The only error \<open>registerTasks\<close> throws is the one for a project
  without the script, and only when missing scripts are not ignored.
\<close>

theorem registerTasks_selection:
  assumes "wellFormedConfiguration (rushConfiguration options)"
    and "set (toProjects options) \<subseteq> projectNames (rushConfiguration options)"
    and "set (fromProjects options) \<subseteq> projectNames (rushConfiguration options)"
  shows "(\<forall>tc. registerTasks options = Inr tc \<longrightarrow>
            registered tc =
              (if toProjects options = [] \<and> fromProjects options = []
               then projectNames (rushConfiguration options)
               else {b. \<exists>a \<in> set (toProjects options).
                          (a, b) \<in> (localDependencies (rushConfiguration options))\<^sup>*} \<union>
                    {b. \<exists>a \<in> set (fromProjects options).
                          (b, a) \<in> (localDependencies (rushConfiguration options))\<^sup>*})) \<and>
         (\<forall>e. registerTasks options = Inl e \<longrightarrow>
            \<not> ignoreMissingScript options \<and>
            (\<exists>n. e = MissingScript n (commandToRun_option options)))"
proof -
  let ?cfg = "rushConfiguration options"
  let ?up = "{b. \<exists>a \<in> set (toProjects options). (a, b) \<in> (localDependencies ?cfg)\<^sup>*}"
  let ?down = "{b. \<exists>a \<in> set (fromProjects options). (b, a) \<in> (localDependencies ?cfg)\<^sup>*}"
  let ?S = "if toProjects options = [] \<and> fromProjects options = [] then projectNames ?cfg
            else ?up \<union> ?down"
  have up: "(localDependencies ?cfg)\<^sup>* `` set (toProjects options) = ?up" by auto
  have down: "((localDependencies ?cfg)\<inverse>)\<^sup>* `` set (fromProjects options) = ?down"
    unfolding rtrancl_converse by auto
  have regEmpty: "registered [] = {}" by (simp add: registered_def)
  have main: "(\<exists>tc. registerTasks options = Inr tc \<and> registered tc = ?S) \<or>
        ((\<exists>n. registerTasks options = Inl (MissingScript n (commandToRun_option options))) \<and>
         \<not> ignoreMissingScript options)"
  proof (cases "toProjects options = []")
    case toEmpty: True
    show ?thesis
    proof (cases "fromProjects options = []")
      case True
      from registerAll_cases [OF assms(1), of "[]"] toEmpty True regEmpty
      show ?thesis by (auto simp: registerTasks_def)
    next
      case False
      from registerFromProjects_cases [OF assms(3), of "[]"] toEmpty False regEmpty down
      show ?thesis by (auto simp: registerTasks_def)
    qed
  next
    case toSome: False
    from registerToProjects_cases [OF assms(1,2), of "[]"] show ?thesis
    proof
      assume "\<exists>tc'. registerToProjects options (toProjects options) [] = Inr tc' \<and>
            registered tc' = registered [] \<union> (localDependencies ?cfg)\<^sup>* `` set (toProjects options)"
      then obtain tc1 where tc1: "registerToProjects options (toProjects options) [] = Inr tc1"
        and r1: "registered tc1 = ?up" using regEmpty up by auto
      show ?thesis
      proof (cases "fromProjects options = []")
        case True
        then have "?down = {}" by simp
        with tc1 r1 toSome True show ?thesis by (auto simp: registerTasks_def)
      next
        case False
        from registerFromProjects_cases [OF assms(3), of tc1] tc1 r1 toSome False down
        show ?thesis by (auto simp: registerTasks_def)
      qed
    next
      assume "(\<exists>n. registerToProjects options (toProjects options) []
                  = Inl (MissingScript n (commandToRun_option options))) \<and>
          \<not> ignoreMissingScript options"
      with toSome show ?thesis by (auto simp: registerTasks_def)
    qed
  qed
  then show ?thesis by auto
qed

lemma wellFormed_diamond: "wellFormedConfiguration diamond"
  by (simp add: wellFormedConfiguration_def diamond_def exampleProject_def projectNames_def)

lemma registerTasks_example:
  "\<exists>tc. registerTasks (exampleOptions [''B''] [''C'']) = Inr tc \<and> map fst tc = [''B'', ''A'', ''C'', ''D'']"
  by (simp add: registerTasks_def registerToProjects_def registerFromProjects_def
        exampleOptions_def diamond_def exampleProject_def projectNamed_def
        getDependentGraph_def addDependent_def setAdd_def
        registerTask_def getTaskName_def hasTask_def getScriptToRun_def getScriptCommand_def
        newProjectBuilder_def addTask_def addDependencies_def newTask_def Task_name_def
        ProjectBuilder_name_def Let_def)

lemma registerTasks_missing_script:
  "registerTasks ((exampleOptions [''B''] [])\<lparr>commandToRun_option := ''test''\<rparr>)
     = Inl (MissingScript ''B'' ''test'')"
  by (simp add: registerTasks_def registerToProjects_def
        exampleOptions_def diamond_def exampleProject_def projectNamed_def
        registerTask_def getTaskName_def hasTask_def getScriptToRun_def getScriptCommand_def
        Let_def)

theorem registerTasks_selection_witness:
  "wellFormedConfiguration diamond \<and>
   (\<exists>tc. registerTasks (exampleOptions [''B''] [''C'']) = Inr tc \<and>
      map fst tc = [''B'', ''A'', ''C'', ''D''] \<and>
      registered tc =
        {b. \<exists>a \<in> set [''B'']. (a, b) \<in> (localDependencies diamond)\<^sup>*} \<union>
        {b. \<exists>a \<in> set [''C'']. (b, a) \<in> (localDependencies diamond)\<^sup>*}) \<and>
   registerTasks ((exampleOptions [''B''] [])\<lparr>commandToRun_option := ''test''\<rparr>)
     = Inl (MissingScript ''B'' ''test'') \<and>
   \<not> ignoreMissingScript ((exampleOptions [''B''] [])\<lparr>commandToRun_option := ''test''\<rparr>)"
proof -
  let ?o = "exampleOptions [''B''] [''C'']"
  let ?m = "(exampleOptions [''B''] [])\<lparr>commandToRun_option := ''test''\<rparr>"
  have wf: "wellFormedConfiguration (rushConfiguration ?o)"
    "wellFormedConfiguration (rushConfiguration ?m)"
    using wellFormed_diamond by (simp_all add: exampleOptions_def)
  have sub: "set (toProjects ?o) \<subseteq> projectNames (rushConfiguration ?o)"
    "set (fromProjects ?o) \<subseteq> projectNames (rushConfiguration ?o)"
    by (simp_all add: exampleOptions_def diamond_def exampleProject_def projectNames_def)
  have subm: "set (toProjects ?m) \<subseteq> projectNames (rushConfiguration ?m)"
    "set (fromProjects ?m) \<subseteq> projectNames (rushConfiguration ?m)"
    by (simp_all add: exampleOptions_def diamond_def exampleProject_def projectNames_def)
  from registerTasks_example obtain tc where
    tc: "registerTasks ?o = Inr tc" "map fst tc = [''B'', ''A'', ''C'', ''D'']" by iprover
  from registerTasks_selection [OF wf(1) sub] tc(1)
  have "registered tc =
        {b. \<exists>a \<in> set [''B'']. (a, b) \<in> (localDependencies diamond)\<^sup>*} \<union>
        {b. \<exists>a \<in> set [''C'']. (b, a) \<in> (localDependencies diamond)\<^sup>*}"
    by (simp add: exampleOptions_def)
  moreover from registerTasks_selection [OF wf(2) subm] registerTasks_missing_script
  have "\<not> ignoreMissingScript ?m" by simp
  ultimately show ?thesis
    using tc wellFormed_diamond registerTasks_missing_script by iprover
qed

section \<open>Proofs: the collections that are built are well formed\<close>

text \<open>
  The hypothesis \<open>wellFormed\<close> of the theorems on \<open>getOrderedTasks\<close> holds of the empty
  collection and is kept by \<open>addTask\<close> and \<open>addDependencies\<close>, whether they throw or not;
  so it holds of every collection \<open>registerTasks\<close> returns.
\<close>

lemma wellFormed_iff:
  "wellFormed tc \<longleftrightarrow>
     distinct (map fst tc) \<and>
     (\<forall>k t. map_of tc k = Some t \<longrightarrow>
        Task_name t = k \<and> criticalPathLength t = None \<and>
        (\<forall>d \<in> set (dependencies t). k \<in> set (dependentsOf tc d)) \<and>
        (\<forall>d \<in> set (dependents t). k \<in> set (dependenciesOf tc d)))"
proof (cases "distinct (map fst tc)")
  case True
  then have "(k, t) \<in> set tc \<longleftrightarrow> map_of tc k = Some t" for k t by simp
  then show ?thesis unfolding wellFormed_def by (simp add: True split_def) (metis prod.collapse fst_conv snd_conv)
next
  case False
  then show ?thesis by (simp add: wellFormed_def)
qed

lemma wellFormed_empty: "wellFormed []"
  by (simp add: wellFormed_def)

lemma wellFormed_addTask:
  assumes "wellFormed tc"
  shows "wellFormed (snd (addTask b tc))"
proof (cases "hasTask tc (ProjectBuilder_name b)")
  case True
  with assms show ?thesis by (simp add: addTask_def)
next
  case False
  let ?n = "ProjectBuilder_name b"
  let ?t = "(newTask b Ready)\<lparr>criticalPathLength := None\<rparr>"
  let ?tc = "tc @ [(?n, ?t)]"
  have eq: "snd (addTask b tc) = ?tc" using False by (simp add: addTask_def Task_name_def newTask_def)
  have none: "map_of tc ?n = None" using False by (simp add: hasTask_def)
  then have notin: "?n \<notin> set (map fst tc)" by (simp add: map_of_eq_None_iff)
  have look: "map_of ?tc k = (if k = ?n then Some ?t else map_of tc k)" for k
    using none by (cases "map_of tc k") (auto simp: map_add_def)
  have "dependentsOf ?tc k = dependentsOf tc k" "dependenciesOf ?tc k = dependenciesOf tc k" for k
    unfolding dependentsOf_def dependenciesOf_def look using none by (simp_all add: newTask_def)
  then have deps: "dependentsOf ?tc = dependentsOf tc" "dependenciesOf ?tc = dependenciesOf tc"
    by (simp_all add: fun_eq_iff)
  have d: "distinct (map fst ?tc)" using assms notin by (simp add: wellFormed_def)
  show ?thesis
    unfolding eq wellFormed_iff deps look
    using d assms [unfolded wellFormed_iff]
    by (auto simp: newTask_def Task_name_def split: if_splits)
qed

lemma link_lookup:
  assumes "hasTask tc n" "hasTask tc d"
  shows "set (dependenciesOf (updateTask d (\<lambda>x. x\<lparr>dependents := setAdd n (dependents x)\<rparr>)
               (updateTask n (\<lambda>t. t\<lparr>dependencies := setAdd d (dependencies t)\<rparr>) tc)) k)
           = set (dependenciesOf tc k) \<union> (if k = n then {d} else {})"
    "set (dependentsOf (updateTask d (\<lambda>x. x\<lparr>dependents := setAdd n (dependents x)\<rparr>)
               (updateTask n (\<lambda>t. t\<lparr>dependencies := setAdd d (dependencies t)\<rparr>) tc)) k)
           = set (dependentsOf tc k) \<union> (if k = d then {n} else {})"
  using assms
  by (auto simp: dependenciesOf_def dependentsOf_def map_of_updateTask hasTask_def
        split: option.splits)

lemma wellFormed_link:
  assumes wf: "wellFormed tc" and n: "hasTask tc n" and d: "hasTask tc d"
  shows "wellFormed (updateTask d (\<lambda>x. x\<lparr>dependents := setAdd n (dependents x)\<rparr>)
               (updateTask n (\<lambda>t. t\<lparr>dependencies := setAdd d (dependencies t)\<rparr>) tc))"
  unfolding wellFormed_iff link_lookup [OF n d]
proof (intro conjI allI impI)
  show "distinct (map fst (updateTask d (\<lambda>x. x\<lparr>dependents := setAdd n (dependents x)\<rparr>)
               (updateTask n (\<lambda>t. t\<lparr>dependencies := setAdd d (dependencies t)\<rparr>) tc)))"
    using wf by (simp add: wellFormed_def)
next
  fix k t1
  assume look: "map_of (updateTask d (\<lambda>x. x\<lparr>dependents := setAdd n (dependents x)\<rparr>)
               (updateTask n (\<lambda>t. t\<lparr>dependencies := setAdd d (dependencies t)\<rparr>) tc)) k = Some t1"
  then obtain t where t: "map_of tc k = Some t"
    and t1: "t1 = (if k = d then (\<lambda>x. x\<lparr>dependents := setAdd n (dependents x)\<rparr>) else id)
                   ((if k = n then (\<lambda>t. t\<lparr>dependencies := setAdd d (dependencies t)\<rparr>) else id) t)"
    by (cases "map_of tc k") (auto simp: map_of_updateTask split: if_splits)
  note w = wf [unfolded wellFormed_iff, THEN conjunct2, rule_format, OF t]
  show "Task_name t1 = k" using w t1 by (simp add: Task_name_def)
  show "criticalPathLength t1 = None" using w t1 by simp
  show "\<forall>x \<in> set (dependencies t1). k \<in> set (dependentsOf tc x) \<union> (if x = d then {n} else {})"
    using w t1 by (auto split: if_splits)
  show "\<forall>x \<in> set (dependents t1). k \<in> set (dependenciesOf tc x) \<union> (if x = n then {d} else {})"
    using w t1 by (auto split: if_splits)
qed

lemma wellFormed_linkDependencies:
  "wellFormed tc \<Longrightarrow> hasTask tc n \<Longrightarrow> wellFormed (snd (linkDependencies n ds tc))"
proof (induction ds arbitrary: tc)
  case Nil
  then show ?case by simp
next
  case (Cons d ds)
  show ?case
  proof (cases "hasTask tc d")
    case False
    with Cons.prems show ?thesis by simp
  next
    case True
    let ?tc1 = "updateTask d (\<lambda>x. x\<lparr>dependents := setAdd n (dependents x)\<rparr>)
               (updateTask n (\<lambda>t. t\<lparr>dependencies := setAdd d (dependencies t)\<rparr>) tc)"
    have "wellFormed ?tc1" using Cons.prems True by (simp add: wellFormed_link)
    moreover have "hasTask ?tc1 n" using Cons.prems(2) by simp
    ultimately have "wellFormed (snd (linkDependencies n ds ?tc1))" by (rule Cons.IH)
    with True show ?thesis by simp
  qed
qed

lemma wellFormed_addDependencies:
  assumes "wellFormed tc"
  shows "wellFormed (snd (addDependencies n ds tc))"
proof (cases "map_of tc n")
  case None
  with assms show ?thesis by (simp add: addDependencies_def)
next
  case (Some t)
  then have "hasTask tc n" by (simp add: hasTask_def)
  with assms Some show ?thesis
    by (cases ds) (simp_all add: addDependencies_def wellFormed_linkDependencies)
qed

lemma wellFormed_registerTask:
  "wellFormed tc \<Longrightarrow> registerTask options p tc = Inr tc' \<Longrightarrow> wellFormed tc'"
proof -
  assume wf: "wellFormed tc" and run: "registerTask options p tc = Inr tc'"
  show "wellFormed tc'"
  proof (cases p)
    case None
    with wf run show ?thesis by (simp add: registerTask_def)
  next
    case (Some q)
    show ?thesis
    proof (cases "hasTask tc (getTaskName q)")
      case True
      with wf run Some show ?thesis by (simp add: registerTask_def)
    next
      case False
      with run Some obtain command where
        "addTask (newProjectBuilder options q command) tc = (None, tc')"
        by (auto simp: registerTask_def split: sum.splits prod.splits option.splits)
      then have "tc' = snd (addTask (newProjectBuilder options q command) tc)" by simp
      with wf show ?thesis by (simp add: wellFormed_addTask)
    qed
  qed
qed

lemma wellFormed_registerEach:
  "wellFormed tc \<Longrightarrow> registerEach options ns tc = Inr tc' \<Longrightarrow> wellFormed tc'"
proof (induction ns arbitrary: tc)
  case Nil
  then show ?case by simp
next
  case (Cons n ns)
  from Cons.prems(2) obtain tc1 where
    first: "registerTask options (projectNamed (rushConfiguration options) n) tc = Inr tc1"
    and rest: "registerEach options ns tc1 = Inr tc'"
    by (auto split: sum.splits)
  from wellFormed_registerTask [OF Cons.prems(1) first] rest show ?case by (rule Cons.IH)
qed

lemma wellFormed_addOrdering:
  "wellFormed tc \<Longrightarrow> addOrdering options keep ns tc = Inr tc' \<Longrightarrow> wellFormed tc'"
proof (induction ns arbitrary: tc)
  case Nil
  then show ?case by simp
next
  case (Cons n ns)
  from Cons.prems(2) obtain p tc1 where
    p: "projectNamed (rushConfiguration options) n = Some p"
    and first: "addDependencies (getTaskName p) (Some (filter keep (localDependencyProjects p))) tc
                  = (None, tc1)"
    and rest: "addOrdering options keep ns tc1 = Inr tc'"
    by (auto split: option.splits prod.splits)
  have "tc1 = snd (addDependencies (getTaskName p) (Some (filter keep (localDependencyProjects p))) tc)"
    using first by simp
  then have "wellFormed tc1" using Cons.prems(1) by (simp add: wellFormed_addDependencies)
  from this rest show ?case by (rule Cons.IH)
qed

lemma wellFormed_registerTasks:
  assumes "registerTasks options = Inr tc"
  shows "wellFormed tc"
proof -
  have toP: "wellFormed a \<Longrightarrow> registerToProjects options r a = Inr c \<Longrightarrow> wellFormed c" for a r c
    by (auto simp: registerToProjects_def split: sum.splits if_splits
          dest: wellFormed_registerEach wellFormed_addOrdering)
  have fromP: "wellFormed a \<Longrightarrow> registerFromProjects options r a = Inr c \<Longrightarrow> wellFormed c" for a r c
    by (auto simp: registerFromProjects_def split: sum.splits if_splits
          dest: wellFormed_registerEach wellFormed_addOrdering)
  have allP: "wellFormed a \<Longrightarrow> registerAll options a = Inr c \<Longrightarrow> wellFormed c" for a c
    by (auto simp: registerAll_def split: sum.splits if_splits
          dest: wellFormed_registerEach wellFormed_addOrdering)
  from assms obtain tc1 tc2 where
    s1: "(if toProjects options \<noteq> [] then registerToProjects options (toProjects options) []
          else Inr []) = Inr tc1"
    and s2: "(if fromProjects options \<noteq> [] then registerFromProjects options (fromProjects options) tc1
          else Inr tc1) = Inr tc2"
    and s3: "(if toProjects options = [] \<and> fromProjects options = [] then registerAll options tc2
          else Inr tc2) = Inr tc"
    by (auto simp: registerTasks_def split: sum.splits)
  have w1: "wellFormed tc1" using s1 toP [OF wellFormed_empty] by (auto split: if_splits simp: wellFormed_empty)
  have w2: "wellFormed tc2" using s2 fromP [OF w1] w1 by (auto split: if_splits)
  show ?thesis using s3 allP [OF w2] w2 by (auto split: if_splits)
qed

end
